theory Spec2Isabelle
  imports Complex_Main "HOL-Library.AList"
begin

section \<open>Numbers, errors and dictionaries\<close>

text \<open>
  A Python \<open>float\<close> that holds a finite value is modelled as a real number, with exact
  arithmetic in place of rounding. The value \<open>float('inf')\<close>, which the engines use
  as the default threshold and as the cost of the fallback path, is the separate value
  \<open>PInf\<close> of the type \<open>xfloat\<close>; it is the greatest element of the order.
\<close>

datatype xfloat = Fin real | PInf

instantiation xfloat :: linorder
begin

fun less_eq_xfloat :: "xfloat \<Rightarrow> xfloat \<Rightarrow> bool" where
  "less_eq_xfloat (Fin a) (Fin b) = (a \<le> b)"
| "less_eq_xfloat PInf (Fin b) = False"
| "less_eq_xfloat x PInf = True"

definition less_xfloat :: "xfloat \<Rightarrow> xfloat \<Rightarrow> bool" where
  "less_xfloat x y = (x \<le> y \<and> \<not> y \<le> x)"

instance
proof
  fix x y z :: xfloat
  show "(x < y) = (x \<le> y \<and> \<not> y \<le> x)"
    by (simp add: less_xfloat_def)
  show "x \<le> x"
    by (cases x) simp_all
  show "x \<le> y \<Longrightarrow> y \<le> z \<Longrightarrow> x \<le> z"
    by (cases x; cases y; cases z) simp_all
  show "x \<le> y \<Longrightarrow> y \<le> x \<Longrightarrow> x = y"
    by (cases x; cases y) simp_all
  show "x \<le> y \<or> y \<le> x"
    by (cases x; cases y) auto
qed

end

lemma xfloat_less_simps [simp]:
  "(Fin a < Fin b) = (a < b)"
  "(PInf < x) = False"
  "(Fin a < PInf) = True"
  by (cases x; auto simp: less_xfloat_def)+

text \<open>The exceptions the modelled code can raise.\<close>

datatype py_error = UnknownLocation | KeyError | ZeroDivisionError

text \<open>
  A Python \<open>dict\<close> is a finite table that keeps its keys in insertion order: an
  association list with \<open>map_of\<close> for lookup and \<open>AList.update\<close> for
  \<open>d[k] = v\<close> (an existing key keeps its place, a new key goes to the end).
\<close>

type_synonym ('k, 'v) dict = "('k \<times> 'v) list"

definition dict_get :: "('k, 'v) dict \<Rightarrow> 'k \<Rightarrow> 'v \<Rightarrow> 'v" where
  "dict_get d k dflt = (case map_of d k of None \<Rightarrow> dflt | Some v \<Rightarrow> v)"

section \<open>Entity model (data_model.py)\<close>

record Postcode =
  code :: string
  suburb :: string
  state :: string
  region :: "string option"

record ProviderZone =
  pz_providerId :: string
  zoneCode :: string
  postcodes :: "string list"
  pz_state :: string
  category :: string

record ProviderZoneRoute =
  providerId :: string
  fromZone :: string
  toZone :: string
  serviceType :: string
  baseCharge :: real
  perKGRate :: real
  minCharge :: real
  deliveryHrs :: real
  maxMass :: real
  maxCBM :: real
  maxPallets :: int
  reliabilityScore :: real
  fuelLevyPct :: real

definition calculateCost :: "ProviderZoneRoute \<Rightarrow> real \<Rightarrow> real" where
  "calculateCost r weightKG =
     (if weightKG \<le> 0 then minCharge r
      else let charge = max (baseCharge r + weightKG * perKGRate r) (minCharge r)
           in charge + charge * (fuelLevyPct r / 100))"

text \<open>
  The cost rule as the specification words it: the base amount is the maximum when the
  weight is positive and the minimum charge otherwise, and the fuel levy is added to it
  in either case.
\<close>

definition spec_cost :: "ProviderZoneRoute \<Rightarrow> real \<Rightarrow> real" where
  "spec_cost r weightKG =
     (let cost = (if 0 < weightKG
                  then max (baseCharge r + weightKG * perKGRate r) (minCharge r)
                  else minCharge r)
      in cost + cost * (fuelLevyPct r / 100))"

record Shipment =
  sh_id :: string
  originPC :: string
  destPC :: string
  weightKG :: real
  volumeCBM :: real
  pallets :: int
  sh_serviceType :: string

subsection \<open>GraphIndex\<close>

record GraphIndex =
  gi_postcodes :: "(string, Postcode) dict"
  providerZones :: "(string, ProviderZone list) dict"
  zoneRoutes :: "(string, ProviderZoneRoute list) dict"
  zoneAdj :: "(string \<times> string, ProviderZoneRoute list) dict"
  revZoneAdj :: "(string \<times> string, ProviderZoneRoute list) dict"
  pcToZones :: "(string, (string \<times> string) list) dict"
  zoneToPCs :: "(string \<times> string, string list) dict"

text \<open>
  \<open>if key not in adj: adj[key] = []\<close> followed by \<open>adj[key].append(x)\<close>.
\<close>

definition dict_append :: "'k \<Rightarrow> 'v \<Rightarrow> ('k, 'v list) dict \<Rightarrow> ('k, 'v list) dict" where
  "dict_append k x d = AList.update k (dict_get d k [] @ [x]) d"

definition buildZoneAdjacency ::
  "(string, ProviderZoneRoute list) dict \<Rightarrow> (string \<times> string, ProviderZoneRoute list) dict" where
  "buildZoneAdjacency zr =
     fold (\<lambda>route_list adj.
             fold (\<lambda>route. dict_append (providerId route, fromZone route) route) route_list adj)
          (map snd zr) []"

definition buildReverseZoneAdjacency ::
  "(string, ProviderZoneRoute list) dict \<Rightarrow> (string \<times> string, ProviderZoneRoute list) dict" where
  "buildReverseZoneAdjacency zr =
     fold (\<lambda>route_list adj.
             fold (\<lambda>route. dict_append (providerId route, toZone route) route) route_list adj)
          (map snd zr) []"

definition buildPCtoZoneMap ::
  "(string, ProviderZone list) dict \<Rightarrow> (string, (string \<times> string) list) dict" where
  "buildPCtoZoneMap pzs =
     fold (\<lambda>(provId, zones) m.
             fold (\<lambda>zone m'.
                     fold (\<lambda>pc. dict_append pc (provId, zoneCode zone)) (postcodes zone) m')
                  zones m)
          pzs []"

definition buildZoneToPCMap ::
  "(string, ProviderZone list) dict \<Rightarrow> (string \<times> string, string list) dict" where
  "buildZoneToPCMap pzs =
     fold (\<lambda>(provId, zones) m.
             fold (\<lambda>zone. AList.update (provId, zoneCode zone) (postcodes zone)) zones m)
          pzs []"

definition GraphIndex_init ::
  "Postcode list \<Rightarrow> (string, ProviderZone list) dict \<Rightarrow> (string, ProviderZoneRoute list) dict
     \<Rightarrow> GraphIndex" where
  "GraphIndex_init pcs pzs zr =
     \<lparr> gi_postcodes = fold (\<lambda>pc. AList.update (code pc) pc) pcs [],
       providerZones = pzs,
       zoneRoutes = zr,
       zoneAdj = buildZoneAdjacency zr,
       revZoneAdj = buildReverseZoneAdjacency zr,
       pcToZones = buildPCtoZoneMap pzs,
       zoneToPCs = buildZoneToPCMap pzs \<rparr>"

definition get_OutgoingRoutes :: "GraphIndex \<Rightarrow> string \<Rightarrow> string \<Rightarrow> ProviderZoneRoute list" where
  "get_OutgoingRoutes idx provId fromZ = dict_get (zoneAdj idx) (provId, fromZ) []"

definition get_IncomingRoutes :: "GraphIndex \<Rightarrow> string \<Rightarrow> string \<Rightarrow> ProviderZoneRoute list" where
  "get_IncomingRoutes idx provId toZ = dict_get (revZoneAdj idx) (provId, toZ) []"

definition get_ZonesForPostcode :: "GraphIndex \<Rightarrow> string \<Rightarrow> (string \<times> string) list" where
  "get_ZonesForPostcode idx pc = dict_get (pcToZones idx) pc []"

definition get_PostcodesForZone :: "GraphIndex \<Rightarrow> string \<Rightarrow> string \<Rightarrow> string list" where
  "get_PostcodesForZone idx provId zc = dict_get (zoneToPCs idx) (provId, zc) []"


section \<open>Search graph shared by both engines\<close>

text \<open>
  A search vertex is the tuple \<open>('pc', code, None)\<close> or \<open>('pz', zoneCode, providerId)\<close>;
  no other shape is ever built, so the tuple is the datatype with these two constructors.
\<close>

datatype Node = PC string | PZ string string

fun node_name :: "Node \<Rightarrow> string" where
  "node_name (PC c) = c"
| "node_name (PZ z p) = z"

text \<open>
  \<open>heapq\<close> on tuples \<open>(f, counter, node)\<close>: the queue is kept as a list, a push adds an
  entry and a pop removes the entry that is least by \<open>(f, counter)\<close>. Counters are
  distinct, so the node is never compared and the popped entry does not depend on the
  layout of the heap array.
\<close>

type_synonym heap = "(real \<times> nat \<times> Node) list"

definition heap_lt :: "real \<times> nat \<times> Node \<Rightarrow> real \<times> nat \<times> Node \<Rightarrow> bool" where
  "heap_lt a b = (fst a < fst b \<or> (fst a = fst b \<and> fst (snd a) < fst (snd b)))"

definition heappush :: "heap \<Rightarrow> real \<times> nat \<times> Node \<Rightarrow> heap" where
  "heappush q x = q @ [x]"

definition heappop :: "heap \<Rightarrow> ((real \<times> nat \<times> Node) \<times> heap) option" where
  "heappop q =
     (case q of
        [] \<Rightarrow> None
      | x # xs \<Rightarrow>
          (let m = fold (\<lambda>y m. if heap_lt y m then y else m) xs x
           in Some (m, remove1 m q)))"

definition state_coords :: "(string, real \<times> real) dict" where
  "state_coords =
     [(''NSW'', (150.9, -33.9)), (''VIC'', (145.1, -37.8)), (''QLD'', (153.0, -27.5)),
      (''WA'', (115.9, -31.9)), (''SA'', (139.2, -34.4)), (''TAS'', (147.1, -42.9)),
      (''ACT'', (149.2, -35.3)), (''NT'', (130.8, -12.5))]"

text \<open>The control outcome of one pass through a \<open>while\<close> body.\<close>

datatype ('s, 'r) ctl = Continue 's | Done 'r

text \<open>
  A path segment is a Python dict; the keys \<open>type\<close>, \<open>service\<close> and \<open>providerId\<close>
  are present in some segments only.
\<close>

record segment =
  seg_fromZone :: string
  seg_toZone :: string
  seg_cost :: real
  seg_etd :: real
  seg_type :: "string option"
  seg_service :: "string option"
  seg_providerId :: "string option"

text \<open>
  \<open>MultiHopPath\<close>. The random \<open>id\<close> is left out. \<open>providersInvolved\<close> is
  \<open>list(set(...))\<close>, whose order Python does not fix: it is kept as the set.
\<close>

record MultiHopPath =
  shipmentId :: string
  nodes :: "Node list"
  segments :: "segment list"
  totalCost :: xfloat
  totalETD :: xfloat
  providersInvolved :: "string set"
  numHops :: nat
  p_reliabilityScore :: real
  totScore :: real
  rank :: nat

text \<open>\<open>xs[:k]\<close> for a Python integer \<open>k\<close>: a negative \<open>k\<close> drops from the end.\<close>

definition py_take :: "int \<Rightarrow> 'a list \<Rightarrow> 'a list" where
  "py_take k xs = (if 0 \<le> k then take (nat k) xs else take (length xs - nat (- k)) xs)"

section \<open>Bidirectional engine (engine.py)\<close>

text \<open>
  \<open>set_order\<close> stands for the order in which the Python runtime iterates a set of
  vertices (it depends on the hash seed of the process): the set is iterated by
  ascending \<open>set_order\<close>. Every iteration order arises from some \<open>set_order\<close>.
\<close>

record BidirectionalAStarEngine =
  index :: GraphIndex
  eng_postcodes :: "(string, Postcode) dict"
  set_order :: "Node \<Rightarrow> nat"

datatype route_info = Entry | Exit | ZoneRoute ProviderZoneRoute

type_synonym neighbor = "Node \<times> real \<times> real \<times> route_info"

fun get_neighbors ::
  "BidirectionalAStarEngine \<Rightarrow> Node \<Rightarrow> Shipment \<Rightarrow> int \<Rightarrow> bool \<Rightarrow> neighbor list" where
  "get_neighbors eng (PC node_id) shipment maxHops forward =
     map (\<lambda>(p_id, zone_code). (PZ zone_code p_id, 0, 0, if forward then Entry else Exit))
         (get_ZonesForPostcode (index eng) node_id)"
| "get_neighbors eng (PZ node_id provider_id) shipment maxHops forward =
     (if forward
      then map (\<lambda>route. (PZ (toZone route) provider_id,
                          calculateCost route (weightKG shipment), deliveryHrs route,
                          ZoneRoute route))
               (get_OutgoingRoutes (index eng) provider_id node_id)
      else map (\<lambda>route. (PZ (fromZone route) provider_id,
                          calculateCost route (weightKG shipment), deliveryHrs route,
                          ZoneRoute route))
               (get_IncomingRoutes (index eng) provider_id node_id))
     @ map (\<lambda>pc. (PC pc, 0, 0, if forward then Exit else Entry))
           (get_PostcodesForZone (index eng) provider_id node_id)"

definition heuristic :: "BidirectionalAStarEngine \<Rightarrow> string \<Rightarrow> string \<Rightarrow> real" where
  "heuristic eng pcA pcB =
     (case map_of (eng_postcodes eng) pcA of
        None \<Rightarrow> 0
      | Some pcA_obj \<Rightarrow>
          (case map_of (eng_postcodes eng) pcB of
             None \<Rightarrow> 0
           | Some pcB_obj \<Rightarrow>
               (let stateA = (if state pcA_obj = [] then ''NSW'' else state pcA_obj);
                    stateB = (if state pcB_obj = [] then ''NSW'' else state pcB_obj)
                in case map_of state_coords stateA of
                     None \<Rightarrow> 0
                   | Some (lonA, latA) \<Rightarrow>
                       (case map_of state_coords stateB of
                          None \<Rightarrow> 0
                        | Some (lonB, latB) \<Rightarrow>
                            sqrt ((lonA - lonB)\<^sup>2 + (latA - latB)\<^sup>2) * 0.01))))"

fun heuristic_node :: "BidirectionalAStarEngine \<Rightarrow> Node \<Rightarrow> string \<Rightarrow> real" where
  "heuristic_node eng (PC node_id) goalPC = heuristic eng node_id goalPC"
| "heuristic_node eng (PZ node_id provider_id) goalPC =
     (case get_PostcodesForZone (index eng) provider_id node_id of
        [] \<Rightarrow> 0
      | pc0 # _ \<Rightarrow> heuristic eng pc0 goalPC)"

record edge =
  e_cost :: real
  e_etd :: real
  e_route :: route_info

record SearchSt =
  open_set :: heap
  counter :: nat
  g_score :: "(Node, real) dict"
  f_score :: "(Node, real) dict"
  came_from :: "(Node, Node) dict"
  edge_data :: "(Node, edge) dict"
  visited :: "Node set"

text \<open>The body of the \<open>for\<close> loop over the neighbours (engine.py, lines 115 to 138).\<close>

definition relax ::
  "BidirectionalAStarEngine \<Rightarrow> string \<Rightarrow> xfloat \<Rightarrow> xfloat \<Rightarrow> Node \<Rightarrow> real \<Rightarrow> neighbor
     \<Rightarrow> SearchSt \<Rightarrow> SearchSt" where
  "relax eng goalPC maxCost maxETD current current_g nb st =
     (case nb of (neighbor, edge_cost, edge_etd, route_info) \<Rightarrow>
        (let neighbor_g = current_g + edge_cost;
             neighbor_h = heuristic_node eng neighbor goalPC;
             neighbor_f = neighbor_g + neighbor_h
         in if (case map_of (g_score st) neighbor of
                  None \<Rightarrow> False
                | Some g \<Rightarrow> g \<le> neighbor_g) then st
            else if maxCost < Fin neighbor_g \<or> maxETD < Fin edge_etd then st
            else st\<lparr> came_from := AList.update neighbor current (came_from st),
                     g_score := AList.update neighbor neighbor_g (g_score st),
                     f_score := AList.update neighbor neighbor_f (f_score st),
                     edge_data := AList.update neighbor
                        \<lparr> e_cost = edge_cost, e_etd = edge_etd, e_route = route_info \<rparr>
                        (edge_data st),
                     open_set := heappush (open_set st) (neighbor_f, counter st, neighbor),
                     counter := counter st + 1 \<rparr>))"

text \<open>One pass through the \<open>while open_set\<close> body (engine.py, lines 98 to 138).\<close>

definition astar_step ::
  "BidirectionalAStarEngine \<Rightarrow> Shipment \<Rightarrow> string \<Rightarrow> bool \<Rightarrow> xfloat \<Rightarrow> xfloat \<Rightarrow> int
     \<Rightarrow> SearchSt \<Rightarrow> (SearchSt, py_error + SearchSt) ctl" where
  "astar_step eng shipment goalPC forward maxCost maxETD maxHops st =
     (case heappop (open_set st) of
        None \<Rightarrow> Done (Inr st)
      | Some (popped, rest) \<Rightarrow>
          (let current = snd (snd popped) in
           if current \<in> visited st then Continue (st\<lparr> open_set := rest \<rparr>)
           else
             (let st1 = st\<lparr> open_set := rest, visited := insert current (visited st) \<rparr>
              in case map_of (g_score st1) current of
                   None \<Rightarrow> Done (Inl KeyError)
                 | Some current_g \<Rightarrow>
                     if maxCost < Fin current_g then Continue st1
                     else Continue
                            (fold (relax eng goalPC maxCost maxETD current current_g)
                                  (get_neighbors eng current shipment maxHops forward) st1))))"


subsection \<open>The search loop terminates\<close>

lemma heap_least_in: "fold (\<lambda>y m. if heap_lt y m then y else m) xs x \<in> set (x # xs)"
  by (induction xs arbitrary: x) (auto split: if_splits)

lemma heappop_SomeD:
  assumes "heappop q = Some (x, rest)"
  shows "x \<in> set q \<and> rest = remove1 x q"
proof (cases q)
  case Nil
  with assms show ?thesis by (simp add: heappop_def)
next
  case (Cons y ys)
  from assms have "x = fold (\<lambda>y m. if heap_lt y m then y else m) ys y" "rest = remove1 x q"
    by (auto simp: heappop_def Let_def Cons)
  with heap_least_in[of ys y] show ?thesis by (simp add: Cons)
qed

lemma heappop_None: "heappop q = None \<longleftrightarrow> q = []"
  by (cases q) (auto simp: heappop_def Let_def)

text \<open>
  Every vertex that any expansion can produce occurs in one of the four lookup tables,
  so the vertices of the search graph form a finite set; it bounds the number of
  expansions.
\<close>

definition universe :: "GraphIndex \<Rightarrow> Node set" where
  "universe idx =
     (\<Union>(pc, zs) \<in> set (pcToZones idx). (\<lambda>(p, z). PZ z p) ` set zs)
     \<union> (\<Union>((p, z), rs) \<in> set (zoneAdj idx). (\<lambda>r. PZ (toZone r) p) ` set rs)
     \<union> (\<Union>((p, z), rs) \<in> set (revZoneAdj idx). (\<lambda>r. PZ (fromZone r) p) ` set rs)
     \<union> (\<Union>(k, pcs) \<in> set (zoneToPCs idx). PC ` set pcs)"

lemma finite_universe: "finite (universe idx)"
  by (auto simp: universe_def)

lemma dict_get_in: "x \<in> set (dict_get d k []) \<Longrightarrow> \<exists>v. (k, v) \<in> set d \<and> x \<in> set v"
  by (cases "map_of d k") (auto simp: dict_get_def dest: map_of_SomeD)

lemma universe_entry:
  "(p, z) \<in> set (get_ZonesForPostcode idx c) \<Longrightarrow> PZ z p \<in> universe idx"
  unfolding get_ZonesForPostcode_def universe_def
  by (drule dict_get_in) force

lemma universe_out:
  "r \<in> set (get_OutgoingRoutes idx p z) \<Longrightarrow> PZ (toZone r) p \<in> universe idx"
  unfolding get_OutgoingRoutes_def universe_def
  by (drule dict_get_in) force

lemma universe_in:
  "r \<in> set (get_IncomingRoutes idx p z) \<Longrightarrow> PZ (fromZone r) p \<in> universe idx"
  unfolding get_IncomingRoutes_def universe_def
  by (drule dict_get_in) force

lemma universe_exit:
  "c \<in> set (get_PostcodesForZone idx p z) \<Longrightarrow> PC c \<in> universe idx"
  unfolding get_PostcodesForZone_def universe_def
  by (drule dict_get_in) force

lemma get_neighbors_universe:
  "fst ` set (get_neighbors eng n sh h fwd) \<subseteq> universe (index eng)"
  by (cases n) (auto simp: universe_entry universe_out universe_in universe_exit)

lemma relax_visited [simp]: "visited (relax eng goal mc me cur cg nb st) = visited st"
  by (simp add: relax_def Let_def split: prod.splits)

lemma relax_open_set:
  "(snd \<circ> snd) ` set (open_set (relax eng goal mc me cur cg nb st))
     \<subseteq> (snd \<circ> snd) ` set (open_set st) \<union> {fst nb}"
  by (auto simp: relax_def Let_def heappush_def split: prod.splits)

lemma fold_relax_visited [simp]:
  "visited (fold (relax eng goal mc me cur cg) nbs st) = visited st"
  by (induction nbs arbitrary: st) simp_all

lemma fold_relax_open_set:
  "(snd \<circ> snd) ` set (open_set (fold (relax eng goal mc me cur cg) nbs st))
     \<subseteq> (snd \<circ> snd) ` set (open_set st) \<union> fst ` set nbs"
proof (induction nbs arbitrary: st)
  case Nil
  show ?case by simp
next
  case (Cons nb nbs)
  from Cons.IH[of "relax eng goal mc me cur cg nb st"] relax_open_set[of eng goal mc me cur cg nb st]
  show ?case by auto
qed

definition search_measure :: "BidirectionalAStarEngine \<Rightarrow> SearchSt \<Rightarrow> nat" where
  "search_measure eng st =
     card ((universe (index eng) \<union> (snd \<circ> snd) ` set (open_set st)) - visited st)"

lemma astar_step_decreases:
  assumes "astar_step eng sh goal fwd mc me h st = Continue st'"
  shows "search_measure eng st' < search_measure eng st
         \<or> (search_measure eng st' = search_measure eng st
            \<and> length (open_set st') < length (open_set st))"
proof -
  from assms obtain popped rest where pop: "heappop (open_set st) = Some (popped, rest)"
    by (auto simp: astar_step_def split: option.splits)
  let ?cur = "snd (snd popped)"
  let ?U = "universe (index eng)"
  from heappop_SomeD[OF pop] have mem: "popped \<in> set (open_set st)"
    and rest: "rest = remove1 popped (open_set st)" by auto
  have sub: "(snd \<circ> snd) ` set rest \<subseteq> (snd \<circ> snd) ` set (open_set st)"
    using rest set_remove1_subset[of popped "open_set st"] by auto
  have len: "length rest < length (open_set st)"
    using mem rest length_pos_if_in_set[OF mem] by (simp add: length_remove1)
  have fin: "finite (?U \<union> (snd \<circ> snd) ` set (open_set st) - visited st)"
    by (simp add: finite_universe)
  show ?thesis
  proof (cases "?cur \<in> visited st")
    case True
    with assms pop have st': "st' = st\<lparr>open_set := rest\<rparr>"
      by (simp add: astar_step_def Let_def)
    have "search_measure eng st' \<le> search_measure eng st"
      unfolding search_measure_def st' using sub fin
      by (intro card_mono) auto
    with len st' show ?thesis by auto
  next
    case False
    have cur_in: "?cur \<in> ?U \<union> (snd \<circ> snd) ` set (open_set st) - visited st"
      using mem False by auto
    let ?st1 = "st\<lparr>open_set := rest, visited := insert ?cur (visited st)\<rparr>"
    have alt: "st' = ?st1 \<or> (\<exists>cg. st' = fold (relax eng goal mc me ?cur cg)
              (get_neighbors eng ?cur sh h fwd) ?st1)"
      using assms pop False
      by (simp add: astar_step_def Let_def split: option.splits if_splits) blast
    have vis: "visited st' = insert ?cur (visited st)"
      using alt by (elim disjE exE) simp_all
    define Q where "Q = (snd \<circ> snd) ` set (open_set st)"
    define Q' where "Q' = (snd \<circ> snd) ` set (open_set st')"
    define R where "R = (snd \<circ> snd) ` set rest"
    define N where "N = fst ` set (get_neighbors eng ?cur sh h fwd)"
    have RQ: "R \<subseteq> Q" using sub by (simp add: R_def Q_def)
    have NU: "N \<subseteq> ?U" unfolding N_def by (rule get_neighbors_universe)
    have "Q' \<subseteq> R \<union> N"
      using alt
    proof (elim disjE exE)
      assume "st' = ?st1"
      then show ?thesis by (simp add: Q'_def R_def)
    next
      fix cg
      assume "st' = fold (relax eng goal mc me ?cur cg) (get_neighbors eng ?cur sh h fwd) ?st1"
      then show ?thesis
        using fold_relax_open_set[of eng goal mc me ?cur cg "get_neighbors eng ?cur sh h fwd" ?st1]
        by (simp add: Q'_def R_def N_def)
    qed
    with RQ NU have Q'sub: "Q' \<subseteq> ?U \<union> Q" by blast
    have cur_in': "?cur \<in> ?U \<union> Q - visited st" using cur_in by (simp add: Q_def)
    have "?U \<union> Q' - insert ?cur (visited st) \<subset> ?U \<union> Q - visited st"
      using Q'sub cur_in' by blast
    then have "card (?U \<union> Q' - visited st') < card (?U \<union> Q - visited st)"
      unfolding vis using fin by (intro psubset_card_mono) (simp_all add: Q_def)
    then have "search_measure eng st' < search_measure eng st"
      by (simp add: search_measure_def Q_def Q'_def)
    then show ?thesis by simp
  qed
qed

function astar_loop ::
  "BidirectionalAStarEngine \<Rightarrow> Shipment \<Rightarrow> string \<Rightarrow> bool \<Rightarrow> xfloat \<Rightarrow> xfloat \<Rightarrow> int
     \<Rightarrow> SearchSt \<Rightarrow> py_error + SearchSt" where
  "astar_loop eng shipment goalPC forward maxCost maxETD maxHops st =
     (case astar_step eng shipment goalPC forward maxCost maxETD maxHops st of
        Done r \<Rightarrow> r
      | Continue st' \<Rightarrow> astar_loop eng shipment goalPC forward maxCost maxETD maxHops st')"
  by pat_completeness auto
termination
proof (relation "measures [\<lambda>(eng, sh, goal, fwd, mc, me, h, st). search_measure eng st,
                           \<lambda>(eng, sh, goal, fwd, mc, me, h, st). length (open_set st)]")
  show "wf (measures [\<lambda>(eng, sh, goal, fwd, mc, me, h, st). search_measure eng st,
                           \<lambda>(eng, sh, goal, fwd, mc, me, h, st). length (open_set st)])"
    by simp
next
  fix eng shipment goalPC forward maxCost maxETD maxHops st st'
  assume "astar_step eng shipment goalPC forward maxCost maxETD maxHops st = Continue st'"
  from astar_step_decreases[OF this]
  show "((eng, shipment, goalPC, forward, maxCost, maxETD, maxHops, st'),
         (eng, shipment, goalPC, forward, maxCost, maxETD, maxHops, st))
        \<in> measures [\<lambda>(eng, sh, goal, fwd, mc, me, h, st). search_measure eng st,
                           \<lambda>(eng, sh, goal, fwd, mc, me, h, st). length (open_set st)]"
    by auto
qed


declare astar_loop.simps [simp del]

text \<open>The dict \<open>{'parent': came_from, 'cost': g_score, 'edge': edge_data}\<close> that a search returns.\<close>

record SearchResult =
  res_parent :: "(Node, Node) dict"
  res_cost :: "(Node, real) dict"
  res_edge :: "(Node, edge) dict"

definition astar_search ::
  "BidirectionalAStarEngine \<Rightarrow> Shipment \<Rightarrow> string \<Rightarrow> string \<Rightarrow> bool \<Rightarrow> xfloat \<Rightarrow> xfloat
     \<Rightarrow> int \<Rightarrow> py_error + SearchResult" where
  "astar_search eng shipment startPC goalPC forward maxCost maxETD maxHops =
     (let start_node = PC startPC;
          start_h = heuristic eng startPC goalPC
      in case astar_loop eng shipment goalPC forward maxCost maxETD maxHops
                \<lparr> open_set = heappush [] (start_h, 0, start_node),
                  counter = 1,
                  g_score = [(start_node, 0)],
                  f_score = [(start_node, start_h)],
                  came_from = [],
                  edge_data = [],
                  visited = {} \<rparr> of
           Inl e \<Rightarrow> Inl e
         | Inr st \<Rightarrow>
             Inr \<lparr> res_parent = came_from st, res_cost = g_score st, res_edge = edge_data st \<rparr>)"

text \<open>
  The segment built from the edge stored at \<open>cur\<close> (engine.py, lines 272 to 285);
  \<open>par\<close> is \<open>came_from[cur]\<close>.
\<close>

definition mk_segment :: "Node \<Rightarrow> Node \<Rightarrow> edge \<Rightarrow> segment" where
  "mk_segment par cur data =
     \<lparr> seg_fromZone = node_name par,
       seg_toZone = node_name cur,
       seg_cost = e_cost data,
       seg_etd = e_etd data,
       seg_type = Some (case e_route data of
                          Entry \<Rightarrow> ''entry'' | Exit \<Rightarrow> ''exit'' | ZoneRoute r \<Rightarrow> ''zone_route''),
       seg_service = Some (case e_route data of ZoneRoute r \<Rightarrow> serviceType r | _ \<Rightarrow> []),
       seg_providerId = (case e_route data of ZoneRoute r \<Rightarrow> Some (providerId r) | _ \<Rightarrow> None) \<rparr>"

text \<open>
  The \<open>while cur is not None\<close> loop of \<open>_unroll_path\<close>. It follows the parent table
  until a vertex without a parent; on a cyclic table it never ends, which is the value
  \<open>None\<close>.
\<close>

partial_function (option) unroll_loop ::
  "(Node, Node) dict \<Rightarrow> (Node, edge) dict \<Rightarrow> Node \<Rightarrow> Node list \<Rightarrow> segment list \<Rightarrow> real
     \<Rightarrow> real \<Rightarrow> (py_error + Node list \<times> segment list \<times> real \<times> real) option" where
  "unroll_loop cf ed cur ns segs tc te =
     (case map_of ed cur of
        None \<Rightarrow>
          (case map_of cf cur of
             None \<Rightarrow> Some (Inr (ns @ [cur], segs, tc, te))
           | Some par \<Rightarrow> unroll_loop cf ed par (ns @ [cur]) segs tc te)
      | Some data \<Rightarrow>
          (case map_of cf cur of
             None \<Rightarrow> Some (Inl KeyError)
           | Some par \<Rightarrow>
               unroll_loop cf ed par (ns @ [cur]) (segs @ [mk_segment par cur data])
                 (tc + e_cost data) (te + e_etd data)))"

definition unroll_path ::
  "Node \<Rightarrow> (Node, Node) dict \<Rightarrow> (Node, edge) dict
     \<Rightarrow> (py_error + Node list \<times> segment list \<times> real \<times> real) option" where
  "unroll_path end_node cf ed = unroll_loop cf ed end_node [] [] 0 0"

definition create_default_path :: "BidirectionalAStarEngine \<Rightarrow> Shipment \<Rightarrow> MultiHopPath" where
  "create_default_path eng shipment =
     \<lparr> shipmentId = sh_id shipment,
       nodes = [PC (originPC shipment), PC (destPC shipment)],
       segments = [],
       totalCost = PInf,
       totalETD = PInf,
       providersInvolved = {},
       numHops = 0,
       p_reliabilityScore = 1,
       totScore = 0,
       rank = 0 \<rparr>"

text \<open>
  The providers of a path: \<open>providers.add(seg['providerId'])\<close> for every segment that
  has the key. In engine_new.py the set is filled along with the segment list, one
  provider for each transit segment, which is the same set.
\<close>

definition seg_providers :: "segment list \<Rightarrow> string set" where
  "seg_providers segs =
     fold (\<lambda>seg providers. case seg_providerId seg of
                              None \<Rightarrow> providers
                            | Some p \<Rightarrow> insert p providers) segs {}"

definition mk_path ::
  "Shipment \<Rightarrow> Node list \<Rightarrow> segment list \<Rightarrow> real \<Rightarrow> real \<Rightarrow> MultiHopPath" where
  "mk_path shipment full_nodes full_segs total_cost total_etd =
     \<lparr> shipmentId = sh_id shipment,
       nodes = full_nodes,
       segments = full_segs,
       totalCost = Fin total_cost,
       totalETD = Fin total_etd,
       providersInvolved = seg_providers full_segs,
       numHops = card (seg_providers full_segs),
       p_reliabilityScore = 1,
       totScore = 0,
       rank = 0 \<rparr>"

text \<open>The \<open>for meet_node in common_nodes\<close> loop of \<open>_merge_paths\<close>.\<close>

fun merge_loop ::
  "Shipment \<Rightarrow> SearchResult \<Rightarrow> SearchResult \<Rightarrow> Node list \<Rightarrow> MultiHopPath list
     \<Rightarrow> (py_error + MultiHopPath list) option" where
  "merge_loop shipment fwd bwd [] paths = Some (Inr paths)"
| "merge_loop shipment fwd bwd (PZ z p # ms) paths = merge_loop shipment fwd bwd ms paths"
| "merge_loop shipment fwd bwd (PC c # ms) paths =
     (case unroll_path (PC c) (res_parent fwd) (res_edge fwd) of
        None \<Rightarrow> None
      | Some (Inl e) \<Rightarrow> Some (Inl e)
      | Some (Inr (f_nodes, f_segs, f_cost, f_etd)) \<Rightarrow>
          (case unroll_path (PC c) (res_parent bwd) (res_edge bwd) of
             None \<Rightarrow> None
           | Some (Inl e) \<Rightarrow> Some (Inl e)
           | Some (Inr (b_nodes, b_segs, b_cost, b_etd)) \<Rightarrow>
               merge_loop shipment fwd bwd ms
                 (paths @ [mk_path shipment (rev f_nodes @ tl b_nodes) (rev f_segs @ b_segs)
                             (f_cost + b_cost) (f_etd + b_etd)])))"

text \<open>
  \<open>set(fwd_visited.keys()) & set(bwd_visited.keys())\<close>, in the order in which the loop
  iterates it.
\<close>

definition common_nodes ::
  "BidirectionalAStarEngine \<Rightarrow> SearchResult \<Rightarrow> SearchResult \<Rightarrow> Node list" where
  "common_nodes eng fwd bwd =
     sort_key (set_order eng)
       (filter (\<lambda>n. map_of (res_cost bwd) n \<noteq> None) (map fst (res_cost fwd)))"

definition merge_paths ::
  "BidirectionalAStarEngine \<Rightarrow> Shipment \<Rightarrow> SearchResult \<Rightarrow> SearchResult
     \<Rightarrow> (py_error + MultiHopPath list) option" where
  "merge_paths eng shipment fwd bwd =
     (case merge_loop shipment fwd bwd (common_nodes eng fwd bwd) [] of
        None \<Rightarrow> None
      | Some (Inl e) \<Rightarrow> Some (Inl e)
      | Some (Inr paths) \<Rightarrow>
          if paths = [] then Some (Inr [create_default_path eng shipment])
          else Some (Inr paths))"

text \<open>
  The result is \<open>None\<close> when the call does not return, \<open>Some (Inl e)\<close> when it
  raises \<open>e\<close>, and \<open>Some (Inr paths)\<close> when it returns \<open>paths\<close>.
\<close>

definition find_mltihop_path ::
  "BidirectionalAStarEngine \<Rightarrow> Shipment \<Rightarrow> xfloat \<Rightarrow> xfloat \<Rightarrow> int \<Rightarrow> int
     \<Rightarrow> (py_error + MultiHopPath list) option" where
  "find_mltihop_path eng shipment maxCost maxETD maxHops topK =
     (if map_of (eng_postcodes eng) (originPC shipment) = None then Some (Inl UnknownLocation)
      else if map_of (eng_postcodes eng) (destPC shipment) = None then Some (Inl UnknownLocation)
      else
        (case astar_search eng shipment (originPC shipment) (destPC shipment) True
                maxCost maxETD maxHops of
           Inl e \<Rightarrow> Some (Inl e)
         | Inr forward_paths \<Rightarrow>
             (case astar_search eng shipment (destPC shipment) (originPC shipment) False
                     maxCost maxETD maxHops of
                Inl e \<Rightarrow> Some (Inl e)
              | Inr backward_paths \<Rightarrow>
                  (case merge_paths eng shipment forward_paths backward_paths of
                     None \<Rightarrow> None
                   | Some (Inl e) \<Rightarrow> Some (Inl e)
                   | Some (Inr all_paths) \<Rightarrow>
                       Some (Inr (py_take topK (sort_key totalCost all_paths)))))))"

subsection \<open>RouteOptimizer (engine.py)\<close>

definition unoptimized :: "BidirectionalAStarEngine \<Rightarrow> Shipment \<Rightarrow> MultiHopPath" where
  "unoptimized eng shipment = create_default_path eng shipment"

definition optimized_for_cost ::
  "BidirectionalAStarEngine \<Rightarrow> Shipment \<Rightarrow> xfloat \<Rightarrow> (py_error + MultiHopPath list) option" where
  "optimized_for_cost eng shipment maxETD = find_mltihop_path eng shipment PInf maxETD 5 10"

definition optimized_for_time ::
  "BidirectionalAStarEngine \<Rightarrow> Shipment \<Rightarrow> xfloat \<Rightarrow> (py_error + MultiHopPath list) option" where
  "optimized_for_time eng shipment maxCost =
     (case find_mltihop_path eng shipment maxCost PInf 5 10 of
        None \<Rightarrow> None
      | Some (Inl e) \<Rightarrow> Some (Inl e)
      | Some (Inr paths) \<Rightarrow> Some (Inr (sort_key totalETD paths)))"

text \<open>
  \<open>1.0 / (1.0 + x / k)\<close>: Python raises \<open>ZeroDivisionError\<close> on a zero divisor, and
  \<open>1.0 / inf\<close> is \<open>0.0\<close>.
\<close>

definition inv_score :: "xfloat \<Rightarrow> real \<Rightarrow> py_error + real" where
  "inv_score x k =
     (case x of
        PInf \<Rightarrow> Inr 0
      | Fin v \<Rightarrow> if 1 + v / k = 0 then Inl ZeroDivisionError else Inr (1 / (1 + v / k)))"

definition score_path :: "MultiHopPath \<Rightarrow> py_error + MultiHopPath" where
  "score_path path =
     (case inv_score (totalCost path) 1000 of
        Inl e \<Rightarrow> Inl e
      | Inr costScore \<Rightarrow>
          (case inv_score (totalETD path) 24 of
             Inl e \<Rightarrow> Inl e
           | Inr timeScore \<Rightarrow>
               Inr (path\<lparr> totScore := 0.4 * costScore + 0.35 * timeScore
                                          + 0.25 * p_reliabilityScore path \<rparr>)))"

fun score_paths :: "MultiHopPath list \<Rightarrow> py_error + MultiHopPath list" where
  "score_paths [] = Inr []"
| "score_paths (p # ps) =
     (case score_path p of
        Inl e \<Rightarrow> Inl e
      | Inr p' \<Rightarrow> (case score_paths ps of Inl e \<Rightarrow> Inl e | Inr ps' \<Rightarrow> Inr (p' # ps')))"

text \<open>\<open>paths.sort(key=..., reverse=True)\<close>: descending, equal keys keep their order.\<close>

definition sort_key_desc :: "('a \<Rightarrow> 'k::linorder) \<Rightarrow> 'a list \<Rightarrow> 'a list" where
  "sort_key_desc f xs = rev (sort_key f (rev xs))"

definition assign_ranks :: "MultiHopPath list \<Rightarrow> MultiHopPath list" where
  "assign_ranks paths = map (\<lambda>(i, path). path\<lparr> rank := i + 1 \<rparr>) (enumerate 0 paths)"

definition optimize_multi_criteria ::
  "BidirectionalAStarEngine \<Rightarrow> Shipment \<Rightarrow> (py_error + MultiHopPath list) option" where
  "optimize_multi_criteria eng shipment =
     (case find_mltihop_path eng shipment PInf PInf 5 15 of
        None \<Rightarrow> None
      | Some (Inl e) \<Rightarrow> Some (Inl e)
      | Some (Inr paths) \<Rightarrow>
          (case score_paths paths of
             Inl e \<Rightarrow> Some (Inl e)
           | Inr scored \<Rightarrow> Some (Inr (assign_ranks (sort_key_desc totScore scored)))))"


section \<open>Unidirectional engine (engine_new.py)\<close>

record FreightAStarEngine =
  fa_index :: GraphIndex
  fa_postcodes :: "(string, Postcode) dict"

datatype fa_info = EntryI string | TransitI ProviderZoneRoute | ExitI string

type_synonym fa_neighbor = "Node \<times> real \<times> real \<times> fa_info"

fun get_forward_neighbors :: "FreightAStarEngine \<Rightarrow> Node \<Rightarrow> Shipment \<Rightarrow> fa_neighbor list" where
  "get_forward_neighbors eng (PC node_id) shipment =
     map (\<lambda>(p_id, zone_code). (PZ zone_code p_id, 0, 0, EntryI p_id))
         (get_ZonesForPostcode (fa_index eng) node_id)"
| "get_forward_neighbors eng (PZ node_id provider_id) shipment =
     map (\<lambda>route. (PZ (toZone route) provider_id,
                     calculateCost route (weightKG shipment), deliveryHrs route, TransitI route))
         (get_OutgoingRoutes (fa_index eng) provider_id node_id)
     @ map (\<lambda>pc. (PC pc, 0, 0, ExitI provider_id))
           (get_PostcodesForZone (fa_index eng) provider_id node_id)"

definition fa_heuristic :: "FreightAStarEngine \<Rightarrow> string \<Rightarrow> string \<Rightarrow> real" where
  "fa_heuristic eng pcA pcB =
     (case map_of (fa_postcodes eng) pcA of
        None \<Rightarrow> 0
      | Some objA \<Rightarrow>
          (case map_of (fa_postcodes eng) pcB of
             None \<Rightarrow> 0
           | Some objB \<Rightarrow>
               (let coordA = dict_get state_coords (state objA) (0, 0);
                    coordB = dict_get state_coords (state objB) (0, 0)
                in sqrt ((fst coordA - fst coordB)\<^sup>2 + (snd coordA - snd coordB)\<^sup>2) * 0.01)))"

fun fa_heuristic_node :: "FreightAStarEngine \<Rightarrow> Node \<Rightarrow> string \<Rightarrow> real" where
  "fa_heuristic_node eng (PC node_id) goalPC = fa_heuristic eng node_id goalPC"
| "fa_heuristic_node eng (PZ node_id provider_id) goalPC =
     (case get_PostcodesForZone (fa_index eng) provider_id node_id of
        [] \<Rightarrow> 0
      | pc0 # _ \<Rightarrow> fa_heuristic eng pc0 goalPC)"

record fa_edge =
  fe_cost :: real
  fe_etd :: real
  fe_info :: fa_info

record FaSt =
  fa_open_set :: heap
  fa_counter :: nat
  fa_g_score :: "(Node, real) dict"
  fa_came_from :: "(Node, Node) dict"
  fa_edge_data :: "(Node, fa_edge) dict"

text \<open>
  The body of the \<open>for\<close> loop over the neighbours (engine_new.py, lines 65 to 80). The
  loop reads \<open>g_score[current]\<close> anew for every neighbour. The parameters \<open>maxETD\<close>
  and \<open>maxHops\<close> of the search call do not occur in the loop.
\<close>

definition fa_relax ::
  "FreightAStarEngine \<Rightarrow> Shipment \<Rightarrow> xfloat \<Rightarrow> Node \<Rightarrow> fa_neighbor \<Rightarrow> py_error + FaSt
     \<Rightarrow> py_error + FaSt" where
  "fa_relax eng shipment maxCost current nb acc =
     (case acc of
        Inl e \<Rightarrow> Inl e
      | Inr st \<Rightarrow>
          (case nb of (neighbor, cost, etd, info) \<Rightarrow>
             (case map_of (fa_g_score st) current of
                None \<Rightarrow> Inl KeyError
              | Some g_current \<Rightarrow>
                  (let tentative_g = g_current + cost
                   in if maxCost < Fin tentative_g then Inr st
                      else if (case map_of (fa_g_score st) neighbor of
                                 None \<Rightarrow> True
                               | Some g \<Rightarrow> tentative_g < g)
                      then Inr (st\<lparr> fa_came_from := AList.update neighbor current (fa_came_from st),
                                     fa_g_score := AList.update neighbor tentative_g (fa_g_score st),
                                     fa_edge_data := AList.update neighbor
                                        \<lparr> fe_cost = cost, fe_etd = etd, fe_info = info \<rparr>
                                        (fa_edge_data st),
                                     fa_counter := fa_counter st + 1,
                                     fa_open_set := heappush (fa_open_set st)
                                        (tentative_g + fa_heuristic_node eng neighbor (destPC shipment),
                                         fa_counter st + 1, neighbor) \<rparr>)
                      else Inr st))))"

text \<open>
  One pass through the \<open>while open_set\<close> body (engine_new.py, lines 49 to 80). The loop
  ends with the goal vertex when it is popped and with no vertex when the queue is empty.
\<close>

definition fa_step ::
  "FreightAStarEngine \<Rightarrow> Shipment \<Rightarrow> xfloat \<Rightarrow> FaSt
     \<Rightarrow> (FaSt, py_error + Node option \<times> FaSt) ctl" where
  "fa_step eng shipment maxCost st =
     (case heappop (fa_open_set st) of
        None \<Rightarrow> Done (Inr (None, st))
      | Some (popped, rest) \<Rightarrow>
          (let current = snd (snd popped);
               st1 = st\<lparr> fa_open_set := rest \<rparr>
           in if current = PC (destPC shipment) then Done (Inr (Some current, st1))
              else
                (case map_of (fa_g_score st1) current of
                   None \<Rightarrow> Done (Inl KeyError)
                 | Some g_current \<Rightarrow>
                     if maxCost < Fin g_current then Continue st1
                     else
                       (case fold (fa_relax eng shipment maxCost current)
                                  (get_forward_neighbors eng current shipment) (Inr st1) of
                          Inl e \<Rightarrow> Done (Inl e)
                        | Inr st2 \<Rightarrow> Continue st2))))"

text \<open>The search loop has no visited set; it is \<open>None\<close> when it does not end.\<close>

partial_function (option) fa_loop ::
  "FreightAStarEngine \<Rightarrow> Shipment \<Rightarrow> xfloat \<Rightarrow> FaSt \<Rightarrow> (py_error + Node option \<times> FaSt) option"
  where
  "fa_loop eng shipment maxCost st =
     (case fa_step eng shipment maxCost st of
        Done r \<Rightarrow> Some r
      | Continue st' \<Rightarrow> fa_loop eng shipment maxCost st')"

definition fa_segment :: "ProviderZoneRoute \<Rightarrow> fa_edge \<Rightarrow> segment" where
  "fa_segment route data =
     \<lparr> seg_fromZone = fromZone route,
       seg_toZone = toZone route,
       seg_cost = fe_cost data,
       seg_etd = fe_etd data,
       seg_type = None,
       seg_service = None,
       seg_providerId = Some (providerId route) \<rparr>"

text \<open>The \<open>while current in came_from\<close> loop of \<open>_reconstruct_path\<close>.\<close>

partial_function (option) reconstruct_loop ::
  "(Node, Node) dict \<Rightarrow> (Node, fa_edge) dict \<Rightarrow> Node \<Rightarrow> Node list \<Rightarrow> segment list \<Rightarrow> real
     \<Rightarrow> real \<Rightarrow> (py_error + Node list \<times> segment list \<times> real \<times> real) option" where
  "reconstruct_loop cf ed current ns segs tc te =
     (case map_of cf current of
        None \<Rightarrow> Some (Inr (ns @ [current], segs, tc, te))
      | Some prev \<Rightarrow>
          (case map_of ed current of
             None \<Rightarrow> Some (Inl KeyError)
           | Some data \<Rightarrow>
               reconstruct_loop cf ed prev (ns @ [current])
                 (case fe_info data of
                    TransitI route \<Rightarrow> segs @ [fa_segment route data]
                  | _ \<Rightarrow> segs)
                 (tc + fe_cost data) (te + fe_etd data)))"

definition reconstruct_path ::
  "Node \<Rightarrow> (Node, Node) dict \<Rightarrow> (Node, fa_edge) dict \<Rightarrow> Shipment
     \<Rightarrow> (py_error + MultiHopPath) option" where
  "reconstruct_path current cf ed shipment =
     (case reconstruct_loop cf ed current [] [] 0 0 of
        None \<Rightarrow> None
      | Some (Inl e) \<Rightarrow> Some (Inl e)
      | Some (Inr (ns, segs, total_cost, total_etd)) \<Rightarrow>
          Some (Inr (mk_path shipment (rev ns) (rev segs) total_cost total_etd)))"

definition fa_create_default_path :: "FreightAStarEngine \<Rightarrow> Shipment \<Rightarrow> MultiHopPath" where
  "fa_create_default_path eng shipment =
     \<lparr> shipmentId = sh_id shipment,
       nodes = [],
       segments = [],
       totalCost = PInf,
       totalETD = PInf,
       providersInvolved = {},
       numHops = 0,
       p_reliabilityScore = 1,
       totScore = 0,
       rank = 0 \<rparr>"

text \<open>The queue and the tables before the first pass (engine_new.py, lines 35 to 45).\<close>

definition fa_init :: "FreightAStarEngine \<Rightarrow> Shipment \<Rightarrow> FaSt" where
  "fa_init eng shipment =
     (let start_node = PC (originPC shipment);
          h_start = fa_heuristic eng (originPC shipment) (destPC shipment)
      in \<lparr> fa_open_set = heappush [] (h_start, 0, start_node),
           fa_counter = 0,
           fa_g_score = [(start_node, 0)],
           fa_came_from = [],
           fa_edge_data = [] \<rparr>)"

definition fa_find_mltihop_path ::
  "FreightAStarEngine \<Rightarrow> Shipment \<Rightarrow> xfloat \<Rightarrow> xfloat \<Rightarrow> int \<Rightarrow> int
     \<Rightarrow> (py_error + MultiHopPath list) option" where
  "fa_find_mltihop_path eng shipment maxCost maxETD maxHops topK =
     (if map_of (fa_postcodes eng) (originPC shipment) = None then Some (Inl UnknownLocation)
      else if map_of (fa_postcodes eng) (destPC shipment) = None then Some (Inl UnknownLocation)
      else
        (case fa_loop eng shipment maxCost (fa_init eng shipment) of
           None \<Rightarrow> None
         | Some (Inl e) \<Rightarrow> Some (Inl e)
         | Some (Inr (None, st)) \<Rightarrow> Some (Inr [fa_create_default_path eng shipment])
         | Some (Inr (Some goal, st)) \<Rightarrow>
             (case reconstruct_path goal (fa_came_from st) (fa_edge_data st) shipment of
                None \<Rightarrow> None
              | Some (Inl e) \<Rightarrow> Some (Inl e)
              | Some (Inr final_path) \<Rightarrow> Some (Inr [final_path]))))"

subsection \<open>RouteOptimizer (engine_new.py)\<close>

definition fa_unoptimized :: "FreightAStarEngine \<Rightarrow> Shipment \<Rightarrow> MultiHopPath" where
  "fa_unoptimized eng shipment = fa_create_default_path eng shipment"

definition fa_optimized_for_cost ::
  "FreightAStarEngine \<Rightarrow> Shipment \<Rightarrow> xfloat \<Rightarrow> (py_error + MultiHopPath list) option" where
  "fa_optimized_for_cost eng shipment maxETD = fa_find_mltihop_path eng shipment PInf maxETD 5 10"

definition fa_optimized_for_time ::
  "FreightAStarEngine \<Rightarrow> Shipment \<Rightarrow> xfloat \<Rightarrow> (py_error + MultiHopPath list) option" where
  "fa_optimized_for_time eng shipment maxCost = fa_find_mltihop_path eng shipment maxCost PInf 5 10"

definition fa_optimize_multi_criteria ::
  "FreightAStarEngine \<Rightarrow> Shipment \<Rightarrow> (py_error + MultiHopPath list) option" where
  "fa_optimize_multi_criteria eng shipment = fa_find_mltihop_path eng shipment PInf PInf 5 10"

section \<open>Viable paths\<close>

text \<open>
  This predicate follows the words of the specification, not a function of the source.
  A path within the thresholds is a walk in the search graph of the unidirectional
  engine that starts at the origin postcode with cost 0 and follows offered edges, such
  that the cost accumulated after every edge is at most \<open>maxCost\<close> and the time of every
  edge is at most \<open>maxETD\<close>. \<open>spec_reach eng shipment maxCost maxETD n c\<close> says that
  such a walk ends in the vertex \<open>n\<close> with accumulated cost \<open>c\<close>; a viable path is
  one that ends in the destination postcode.
\<close>

inductive spec_reach ::
  "FreightAStarEngine \<Rightarrow> Shipment \<Rightarrow> xfloat \<Rightarrow> xfloat \<Rightarrow> Node \<Rightarrow> real \<Rightarrow> bool"
  for eng shipment maxCost maxETD where
  start: "spec_reach eng shipment maxCost maxETD (PC (originPC shipment)) 0"
| edge: "spec_reach eng shipment maxCost maxETD n c
         \<Longrightarrow> (m, edge_cost, edge_etd, info) \<in> set (get_forward_neighbors eng n shipment)
         \<Longrightarrow> Fin (c + edge_cost) \<le> maxCost
         \<Longrightarrow> Fin edge_etd \<le> maxETD
         \<Longrightarrow> spec_reach eng shipment maxCost maxETD m (c + edge_cost)"

definition spec_viable_path ::
  "FreightAStarEngine \<Rightarrow> Shipment \<Rightarrow> xfloat \<Rightarrow> xfloat \<Rightarrow> bool" where
  "spec_viable_path eng shipment maxCost maxETD =
     (\<exists>c. spec_reach eng shipment maxCost maxETD (PC (destPC shipment)) c)"


section \<open>Concrete inputs\<close>

definition ex_pc :: "string \<Rightarrow> string \<Rightarrow> Postcode" where
  "ex_pc c s = \<lparr> code = c, suburb = s, state = ''XX'', region = None \<rparr>"

definition ex_zone :: "string \<Rightarrow> string list \<Rightarrow> ProviderZone" where
  "ex_zone z pcs =
     \<lparr> pz_providerId = ''P'', zoneCode = z, postcodes = pcs, pz_state = ''XX'', category = [] \<rparr>"

definition ex_route :: "string \<Rightarrow> string \<Rightarrow> real \<Rightarrow> real \<Rightarrow> ProviderZoneRoute" where
  "ex_route a b c hrs =
     \<lparr> providerId = ''P'', fromZone = a, toZone = b, serviceType = ''S'',
       baseCharge = c, perKGRate = 0, minCharge = c, deliveryHrs = hrs, maxMass = 0,
       maxCBM = 0, maxPallets = 0, reliabilityScore = 1, fuelLevyPct = 0 \<rparr>"

definition ex_levy_route :: ProviderZoneRoute where
  "ex_levy_route =
     \<lparr> providerId = ''P'', fromZone = ''ZA'', toZone = ''ZB'', serviceType = ''S'',
       baseCharge = 15, perKGRate = 0.5, minCharge = 2, deliveryHrs = 24, maxMass = 0,
       maxCBM = 0, maxPallets = 0, reliabilityScore = 1, fuelLevyPct = 10 \<rparr>"

definition ex_shipment :: "string \<Rightarrow> string \<Rightarrow> real \<Rightarrow> Shipment" where
  "ex_shipment a b w =
     \<lparr> sh_id = ''s1'', originPC = a, destPC = b, weightKG = w, volumeCBM = 0, pallets = 0,
       sh_serviceType = ''Standard'' \<rparr>"

text \<open>
  Two postcodes, each the only member of one zone of provider \<open>P\<close>, and one route
  between the zones that costs 65 and takes 48 hours.
\<close>

definition ex_index_ab :: GraphIndex where
  "ex_index_ab =
     GraphIndex_init [ex_pc ''A'' [], ex_pc ''B'' []]
       [(''P'', [ex_zone ''ZA'' [''A''], ex_zone ''ZB'' [''B'']])]
       [(''P'', [ex_route ''ZA'' ''ZB'' 65 48])]"

text \<open>
  Three postcodes in a line: \<open>A\<close> to \<open>M\<close> and \<open>M\<close> to \<open>B\<close>, each leg costing 60.
\<close>

definition ex_index_amb :: GraphIndex where
  "ex_index_amb =
     GraphIndex_init [ex_pc ''A'' [], ex_pc ''M'' [], ex_pc ''B'' []]
       [(''P'', [ex_zone ''ZA'' [''A''], ex_zone ''ZM'' [''M''], ex_zone ''ZB'' [''B'']])]
       [(''P'', [ex_route ''ZA'' ''ZM'' 60 10, ex_route ''ZM'' ''ZB'' 60 10])]"

definition ex_bi :: "GraphIndex \<Rightarrow> BidirectionalAStarEngine" where
  "ex_bi idx = \<lparr> index = idx, eng_postcodes = gi_postcodes idx, set_order = (\<lambda>n. 0) \<rparr>"

definition ex_fa :: "GraphIndex \<Rightarrow> FreightAStarEngine" where
  "ex_fa idx = \<lparr> fa_index = idx, fa_postcodes = gi_postcodes idx \<rparr>"

text \<open>
  Two zones with a route in each direction; the route back has the negative cost \<open>-2\<close>,
  so the round trip costs \<open>-1\<close>.
\<close>

definition ex_index_neg :: GraphIndex where
  "ex_index_neg =
     GraphIndex_init [ex_pc ''A'' [], ex_pc ''B'' []]
       [(''P'', [ex_zone ''ZA'' [''A''], ex_zone ''ZB'' [''B'']])]
       [(''P'', [ex_route ''ZA'' ''ZB'' 1 10, ex_route ''ZB'' ''ZA'' (- 2) 10])]"

text \<open>
  Eleven postcodes. Zone \<open>ZA\<close> holds \<open>A\<close> and seven more postcodes; a direct
  route from \<open>ZA\<close> to \<open>ZB\<close> costs 65, the way over \<open>ZM\<close> costs 60 + 60 and the way
  over \<open>ZN\<close> costs 70 + 70. Every postcode can be reached from \<open>A\<close> and reaches
  \<open>B\<close>, so the bidirectional engine has eleven candidate paths.
\<close>

definition ex_index_many :: GraphIndex where
  "ex_index_many =
     GraphIndex_init
       [ex_pc ''A'' [], ex_pc ''B'' [], ex_pc ''M'' [], ex_pc ''N'' [], ex_pc ''1'' [],
        ex_pc ''2'' [], ex_pc ''3'' [], ex_pc ''4'' [], ex_pc ''5'' [], ex_pc ''6'' [],
        ex_pc ''7'' []]
       [(''P'', [ex_zone ''ZA'' [''A'', ''1'', ''2'', ''3'', ''4'', ''5'', ''6'', ''7''],
                 ex_zone ''ZM'' [''M''], ex_zone ''ZN'' [''N''], ex_zone ''ZB'' [''B'']])]
       [(''P'', [ex_route ''ZA'' ''ZB'' 65 48, ex_route ''ZA'' ''ZM'' 60 10,
                 ex_route ''ZM'' ''ZB'' 60 10, ex_route ''ZA'' ''ZN'' 70 10,
                 ex_route ''ZN'' ''ZB'' 70 10])]"

text \<open>
  Two zones and a single route, from \<open>ZA\<close> to \<open>ZA\<close> itself, of cost \<open>-1\<close>.
\<close>

definition ex_index_loop :: GraphIndex where
  "ex_index_loop =
     GraphIndex_init [ex_pc ''A'' [], ex_pc ''B'' []]
       [(''P'', [ex_zone ''ZA'' [''A''], ex_zone ''ZB'' [''B'']])]
       [(''P'', [ex_route ''ZA'' ''ZA'' (- 1) 10])]"

text \<open>The equations that evaluate the engines on concrete inputs.\<close>

lemmas ex_simps = ex_pc_def ex_zone_def ex_route_def ex_shipment_def ex_index_ab_def
  ex_index_amb_def ex_index_neg_def ex_index_many_def ex_index_loop_def ex_bi_def ex_fa_def

lemmas index_simps = GraphIndex_init_def buildZoneAdjacency_def buildReverseZoneAdjacency_def
  buildPCtoZoneMap_def buildZoneToPCMap_def dict_append_def dict_get_def
  get_ZonesForPostcode_def get_OutgoingRoutes_def get_IncomingRoutes_def
  get_PostcodesForZone_def calculateCost_def

lemmas heap_simps = heappush_def heappop_def heap_lt_def

lemmas bi_simps = find_mltihop_path_def astar_search_def astar_loop.simps astar_step_def
  relax_def heuristic_def state_coords_def merge_paths_def common_nodes_def unroll_path_def
  unroll_loop.simps mk_segment_def mk_path_def seg_providers_def create_default_path_def
  py_take_def Let_def

lemmas fa_simps = fa_find_mltihop_path_def fa_init_def fa_loop.simps fa_step_def fa_relax_def
  fa_heuristic_def state_coords_def reconstruct_path_def reconstruct_loop.simps
  fa_segment_def mk_path_def seg_providers_def fa_create_default_path_def Let_def

lemmas opt_simps = optimized_for_cost_def optimized_for_time_def optimize_multi_criteria_def
  fa_optimized_for_cost_def fa_optimized_for_time_def fa_optimize_multi_criteria_def
  score_path_def inv_score_def sort_key_desc_def assign_ranks_def enumerate_eq_zip

lemmas search_simps = astar_search_def astar_loop.simps astar_step_def
  relax_def heuristic_def state_coords_def Let_def

section \<open>Properties of the graph index\<close>

lemma fold_update_other:
  "k \<notin> kf ` set xs \<Longrightarrow> map_of (fold (\<lambda>x. AList.update (kf x) (vf x)) xs d) k = map_of d k"
  by (induction xs arbitrary: d) (simp_all add: update_conv')

lemma fold_update_last:
  "kf x \<notin> kf ` set later \<Longrightarrow>
   map_of (fold (\<lambda>x. AList.update (kf x) (vf x)) (earlier @ x # later) d) (kf x) = Some (vf x)"
  by (simp add: fold_update_other update_conv')

lemma dict_get_update:
  "dict_get (AList.update k v d) k' dflt = (if k' = k then v else dict_get d k' dflt)"
  by (simp add: dict_get_def update_conv')

lemma dict_get_append:
  "dict_get (dict_append k x d) k' [] = (if k' = k then dict_get d k [] @ [x] else dict_get d k' [])"
  by (simp add: dict_append_def dict_get_update)

lemma fold_dict_append:
  "dict_get (fold (\<lambda>x. dict_append (kf x) (vf x)) xs d) k []
     = dict_get d k [] @ map vf (filter (\<lambda>x. kf x = k) xs)"
  by (induction xs arbitrary: d) (auto simp: dict_get_append)

lemma fold_fold_concat: "fold (fold f) xss d = fold f (concat xss) d"
  by (induction xss arbitrary: d) simp_all

lemma dict_get_Nil [simp]: "dict_get [] k dflt = dflt"
  by (simp add: dict_get_def)

lemma outgoing_all:
  "get_OutgoingRoutes (GraphIndex_init pcs pzs zr) p z
     = filter (\<lambda>r. providerId r = p \<and> fromZone r = z) (concat (map snd zr))"
proof -
  have "buildZoneAdjacency zr
          = fold (\<lambda>r. dict_append (providerId r, fromZone r) r) (concat (map snd zr)) []"
    by (simp add: buildZoneAdjacency_def fold_fold_concat[symmetric])
  then show ?thesis
    using fold_dict_append[of "\<lambda>r. (providerId r, fromZone r)" "\<lambda>r. r" "concat (map snd zr)" "[]" "(p, z)"]
    by (simp add: get_OutgoingRoutes_def GraphIndex_init_def)
qed

lemma incoming_all:
  "get_IncomingRoutes (GraphIndex_init pcs pzs zr) p z
     = filter (\<lambda>r. providerId r = p \<and> toZone r = z) (concat (map snd zr))"
proof -
  have "buildReverseZoneAdjacency zr
          = fold (\<lambda>r. dict_append (providerId r, toZone r) r) (concat (map snd zr)) []"
    by (simp add: buildReverseZoneAdjacency_def fold_fold_concat[symmetric])
  then show ?thesis
    using fold_dict_append[of "\<lambda>r. (providerId r, toZone r)" "\<lambda>r. r" "concat (map snd zr)" "[]" "(p, z)"]
    by (simp add: get_IncomingRoutes_def GraphIndex_init_def)
qed

text \<open>The zones of all providers, in the order in which the build loops visit them.\<close>

definition zone_entries :: "(string, ProviderZone list) dict \<Rightarrow> (string \<times> ProviderZone) list" where
  "zone_entries pzs = concat (map (\<lambda>(provId, zones). map (\<lambda>z. (provId, z)) zones) pzs)"

lemma buildZoneToPCMap_flat:
  "buildZoneToPCMap pzs
     = fold (\<lambda>(provId, z). AList.update (provId, zoneCode z) (postcodes z)) (zone_entries pzs) []"
proof -
  have "\<And>d. fold (\<lambda>(provId, zones) m.
             fold (\<lambda>zone. AList.update (provId, zoneCode zone) (postcodes zone)) zones m) pzs d
        = fold (\<lambda>(provId, z). AList.update (provId, zoneCode z) (postcodes z)) (zone_entries pzs) d"
  proof (induction pzs)
    case Nil
    show ?case by (simp add: zone_entries_def)
  next
    case (Cons a pzs)
    obtain prov zs where a: "a = (prov, zs)" by (cases a)
    show ?case
      using Cons.IH by (simp add: a zone_entries_def fold_map comp_def)
  qed
  then show ?thesis by (simp add: buildZoneToPCMap_def)
qed

lemma zone_last_write:
  assumes "prov \<notin> fst ` set post" "zoneCode z \<notin> zoneCode ` set after"
  shows "get_PostcodesForZone (GraphIndex_init pcs (pre @ (prov, before @ z # after) # post) zr)
           prov (zoneCode z) = postcodes z"
proof -
  let ?kf = "\<lambda>(provId, z). (provId, zoneCode z)"
  let ?vf = "\<lambda>(provId, z). postcodes z"
  let ?later = "map (\<lambda>z. (prov, z)) after @ zone_entries post"
  let ?earlier = "zone_entries pre @ map (\<lambda>z. (prov, z)) before"
  have split: "zone_entries (pre @ (prov, before @ z # after) # post) = ?earlier @ (prov, z) # ?later"
    by (simp add: zone_entries_def)
  have "fst ` set (zone_entries post) \<subseteq> fst ` set post"
    by (auto simp: zone_entries_def) force
  with assms(1) have "\<And>b. (prov, b) \<notin> set (zone_entries post)"
    by (metis fst_conv image_eqI subsetD)
  with assms(2) have notin: "?kf (prov, z) \<notin> ?kf ` set ?later"
    by auto
  have eq: "(\<lambda>(provId, z). AList.update (provId, zoneCode z) (postcodes z))
          = (\<lambda>x. AList.update (?kf x) (?vf x))"
    by (auto simp: fun_eq_iff)
  have "map_of (buildZoneToPCMap (pre @ (prov, before @ z # after) # post)) (prov, zoneCode z)
          = Some (postcodes z)"
    unfolding buildZoneToPCMap_flat split eq
    using fold_update_last[of ?kf "(prov, z)" ?later ?vf ?earlier "[]", OF notin] by simp
  then show ?thesis
    by (simp add: get_PostcodesForZone_def GraphIndex_init_def dict_get_def)
qed

lemma postcode_last_write:
  "code p \<notin> code ` set later \<Longrightarrow>
   map_of (gi_postcodes (GraphIndex_init (earlier @ p # later) pzs zr)) (code p) = Some p"
  using fold_update_last[of code p later "\<lambda>x. x" earlier "[]"]
  by (simp add: GraphIndex_init_def)

text \<open>
  The postcode-to-zones table is built by appending: a postcode gets one entry for every
  occurrence in the postcode list of any zone, in the order of the build loops.
\<close>

lemma fold_pc_append:
  "dict_get (fold (\<lambda>pc. dict_append pc v) ps d) k []
     = dict_get d k [] @ map (\<lambda>_. v) (filter (\<lambda>c. c = k) ps)"
  using fold_dict_append[of "\<lambda>pc. pc" "\<lambda>_. v" ps d k] by simp

lemma fold_zone_append:
  "dict_get (fold (\<lambda>zone m. fold (\<lambda>pc. dict_append pc (prov, zoneCode zone)) (postcodes zone) m)
               zones d) k []
     = dict_get d k []
       @ concat (map (\<lambda>z. map (\<lambda>_. (prov, zoneCode z)) (filter (\<lambda>c. c = k) (postcodes z))) zones)"
  by (induction zones arbitrary: d) (simp_all add: fold_pc_append)

lemma fold_provider_append:
  "dict_get (fold (\<lambda>(provId, zones) m.
                     fold (\<lambda>zone m'.
                             fold (\<lambda>pc. dict_append pc (provId, zoneCode zone)) (postcodes zone) m')
                          zones m) pzs d) k []
     = dict_get d k []
       @ concat (map (\<lambda>(prov, zones).
                   concat (map (\<lambda>z. map (\<lambda>_. (prov, zoneCode z))
                                      (filter (\<lambda>c. c = k) (postcodes z))) zones)) pzs)"
  by (induction pzs arbitrary: d) (auto simp: fold_zone_append)

lemma zones_for_postcode_all:
  "get_ZonesForPostcode (GraphIndex_init pcs pzs zr) pc
     = concat (map (\<lambda>(prov, zones).
                 concat (map (\<lambda>z. map (\<lambda>_. (prov, zoneCode z))
                                    (filter (\<lambda>c. c = pc) (postcodes z))) zones)) pzs)"
  using fold_provider_append[of pzs "[]" pc]
  by (simp add: get_ZonesForPostcode_def GraphIndex_init_def buildPCtoZoneMap_def)

section \<open>Properties of the bidirectional search\<close>

text \<open>An invariant of the loop body holds of the state the loop ends in.\<close>

lemma astar_loop_invariant:
  assumes "astar_loop eng sh goal fwd mc me h st = Inr fin"
    and "P st"
    and "\<And>s s'. P s \<Longrightarrow> astar_step eng sh goal fwd mc me h s = Continue s' \<Longrightarrow> P s'"
  shows "P fin"
  using assms
proof (induction eng sh goal fwd mc me h st rule: astar_loop.induct)
  case (1 eng shipment goalPC forward maxCost maxETD maxHops st)
  show ?case
  proof (cases "astar_step eng shipment goalPC forward maxCost maxETD maxHops st")
    case (Continue s')
    with "1.prems"(1)
    have "astar_loop eng shipment goalPC forward maxCost maxETD maxHops s' = Inr fin"
      by (simp add: astar_loop.simps[of _ _ _ _ _ _ _ st])
    moreover have "P s'" using "1.prems"(3)[OF "1.prems"(2) Continue] .
    ultimately show ?thesis using "1.IH"[OF Continue] "1.prems"(3) by blast
  next
    case (Done r)
    with "1.prems"(1) have "r = Inr fin"
      by (simp add: astar_loop.simps[of _ _ _ _ _ _ _ st])
    with Done have "fin = st"
      by (auto simp: astar_step_def Let_def split: option.splits if_splits)
    with "1.prems"(2) show ?thesis by simp
  qed
qed

text \<open>A property that every relaxation keeps is kept by the whole step.\<close>

lemma fold_relax_invariant:
  assumes "P st"
    and "\<And>nb s. nb \<in> set nbs \<Longrightarrow> P s \<Longrightarrow> P (relax eng goal mc me cur cg nb s)"
  shows "P (fold (relax eng goal mc me cur cg) nbs st)"
  using assms by (induction nbs arbitrary: st) simp_all

lemma astar_step_cases:
  assumes "astar_step eng sh goal fwd mc me h st = Continue st'"
  obtains popped rest where "heappop (open_set st) = Some (popped, rest)"
      "snd (snd popped) \<in> visited st" "st' = st\<lparr>open_set := rest\<rparr>"
  | popped rest cg where "heappop (open_set st) = Some (popped, rest)"
      "snd (snd popped) \<notin> visited st"
      "map_of (g_score st) (snd (snd popped)) = Some cg" "mc < Fin cg"
      "st' = st\<lparr>open_set := rest, visited := insert (snd (snd popped)) (visited st)\<rparr>"
  | popped rest cg where "heappop (open_set st) = Some (popped, rest)"
      "snd (snd popped) \<notin> visited st"
      "map_of (g_score st) (snd (snd popped)) = Some cg" "\<not> mc < Fin cg"
      "st' = fold (relax eng goal mc me (snd (snd popped)) cg)
               (get_neighbors eng (snd (snd popped)) sh h fwd)
               (st\<lparr>open_set := rest, visited := insert (snd (snd popped)) (visited st)\<rparr>)"
  using assms
  by (auto simp: astar_step_def Let_def split: option.splits if_splits)

text \<open>Recorded costs stay within the threshold; only the start can be recorded above it.\<close>

definition g_bounded :: "xfloat \<Rightarrow> Node \<Rightarrow> SearchSt \<Rightarrow> bool" where
  "g_bounded mc start st =
     (\<forall>(n, c) \<in> set (g_score st). Fin c \<le> mc \<or> (n = start \<and> c = 0))"

lemma set_update_subset: "set (AList.update k v d) \<subseteq> insert (k, v) (set d)"
  by (induction d) auto

lemma relax_g_bounded:
  "g_bounded mc start st \<Longrightarrow> g_bounded mc start (relax eng goal mc me cur cg nb st)"
proof -
  assume a: "g_bounded mc start st"
  obtain n c e ri where nb: "nb = (n, c, e, ri)" by (cases nb)
  show ?thesis
    using a set_update_subset[of n "cg + c" "g_score st"]
    by (auto simp: relax_def nb Let_def g_bounded_def not_less split: option.splits)
qed

lemma astar_step_g_bounded:
  assumes "g_bounded mc start st" "astar_step eng sh goal fwd mc me h st = Continue st'"
  shows "g_bounded mc start st'"
  using assms(2)
proof (cases rule: astar_step_cases)
  case (1 popped rest)
  with assms(1) show ?thesis by (simp add: g_bounded_def)
next
  case (2 popped rest cg)
  with assms(1) show ?thesis by (simp add: g_bounded_def)
next
  case (3 popped rest cg)
  have "g_bounded mc start (st\<lparr>open_set := rest, visited := insert (snd (snd popped)) (visited st)\<rparr>)"
    using assms(1) by (simp add: g_bounded_def)
  then show ?thesis
    unfolding 3(5) by (rule fold_relax_invariant) (rule relax_g_bounded)
qed


lemma astar_search_g_bounded:
  assumes "astar_search eng sh start goal fwd mc me h = Inr res"
  shows "\<forall>(n, c) \<in> set (res_cost res). Fin c \<le> mc \<or> (n = PC start \<and> c = 0)"
proof -
  let ?init = "\<lparr> open_set = heappush [] (heuristic eng start goal, 0, PC start), counter = 1,
                  g_score = [(PC start, 0)], f_score = [(PC start, heuristic eng start goal)],
                  came_from = [], edge_data = [], visited = {} \<rparr>"
  from assms obtain st where loop: "astar_loop eng sh goal fwd mc me h ?init = Inr st"
    and res: "res_cost res = g_score st"
    by (auto simp: astar_search_def Let_def split: sum.splits)
  have "g_bounded mc (PC start) st"
    using loop by (rule astar_loop_invariant) (simp_all add: g_bounded_def astar_step_g_bounded[unfolded g_bounded_def])
  then show ?thesis by (simp add: g_bounded_def res)
qed

subsection \<open>The hop limit is passed along and never read\<close>

lemma get_neighbors_maxHops:
  "get_neighbors eng n sh h1 fwd = get_neighbors eng n sh h2 fwd"
  by (cases n) simp_all

lemma astar_step_maxHops:
  "astar_step eng sh goal fwd mc me h1 st = astar_step eng sh goal fwd mc me h2 st"
  unfolding astar_step_def get_neighbors_maxHops[of eng _ sh h1 fwd h2] ..

lemma astar_loop_maxHops:
  "astar_loop eng sh goal fwd mc me h1 st = astar_loop eng sh goal fwd mc me h2 st"
proof (induction eng sh goal fwd mc me h1 st rule: astar_loop.induct)
  case (1 eng shipment goalPC forward maxCost maxETD maxHops st)
  show ?case
  proof (cases "astar_step eng shipment goalPC forward maxCost maxETD maxHops st")
    case (Continue s')
    then have c2: "astar_step eng shipment goalPC forward maxCost maxETD h2 st = Continue s'"
      by (simp add: astar_step_maxHops[where ?h1.0 = h2 and ?h2.0 = maxHops])
    show ?thesis
      using "1.IH"[OF Continue] Continue c2
      by (simp add: astar_loop.simps[of _ _ _ _ _ _ _ st])
  next
    case (Done r)
    then have c2: "astar_step eng shipment goalPC forward maxCost maxETD h2 st = Done r"
      by (simp add: astar_step_maxHops[where ?h1.0 = h2 and ?h2.0 = maxHops])
    show ?thesis
      using Done c2 by (simp add: astar_loop.simps[of _ _ _ _ _ _ _ st])
  qed
qed

lemma astar_search_maxHops:
  "astar_search eng sh start goal fwd mc me h1 = astar_search eng sh start goal fwd mc me h2"
  unfolding astar_search_def astar_loop_maxHops[of _ _ _ _ _ _ h1 _ h2] ..

subsection \<open>Sorting and truncation\<close>

lemma py_take_length: "0 \<le> k \<Longrightarrow> length (py_take k xs) \<le> nat k"
  by (simp add: py_take_def)

lemma sorted_py_take: "sorted (map f xs) \<Longrightarrow> sorted (map f (py_take k xs))"
  by (simp add: py_take_def take_map[symmetric] sorted_wrt_take)

lemma find_mltihop_path_sorted:
  assumes "find_mltihop_path eng sh mc me h k = Some (Inr ps)"
  shows "sorted (map totalCost ps) \<and> (0 \<le> k \<longrightarrow> length ps \<le> nat k)"
proof -
  from assms obtain all_paths where "ps = py_take k (sort_key totalCost all_paths)"
    by (auto simp: find_mltihop_path_def split: if_splits sum.splits option.splits)
  then show ?thesis
    using sorted_py_take[of totalCost "sort_key totalCost all_paths" k]
      py_take_length[of k "sort_key totalCost all_paths"]
    by auto
qed

lemma fa_find_mltihop_path_single:
  assumes "fa_find_mltihop_path eng sh mc me h k = Some (Inr ps)"
  shows "length ps = 1"
  using assms
  by (auto simp: fa_find_mltihop_path_def Let_def split: if_splits sum.splits option.splits prod.splits)

subsection \<open>Edge costs\<close>

lemma get_neighbors_cost:
  "(n, c, e, ZoneRoute r) \<in> set (get_neighbors eng cur sh h fwd)
     \<Longrightarrow> c = calculateCost r (weightKG sh) \<and> e = deliveryHrs r"
  by (cases cur) (auto split: if_splits)

lemma get_forward_neighbors_cost:
  "(n, c, e, TransitI r) \<in> set (get_forward_neighbors eng cur sh)
     \<Longrightarrow> c = calculateCost r (weightKG sh) \<and> e = deliveryHrs r"
  by (cases cur) auto

text \<open>Every stored route edge carries the cost of its route at the shipment weight.\<close>

definition edges_priced :: "real \<Rightarrow> SearchSt \<Rightarrow> bool" where
  "edges_priced w st =
     (\<forall>(n, e) \<in> set (edge_data st). \<forall>r. e_route e = ZoneRoute r \<longrightarrow> e_cost e = calculateCost r w)"

lemma set_update_cases: "x \<in> set (AList.update k v d) \<Longrightarrow> x = (k, v) \<or> x \<in> set d"
  using set_update_subset[of k v d] by auto

lemma relax_edges_priced:
  assumes "edges_priced (weightKG sh) st" "nb \<in> set (get_neighbors eng cur sh h fwd)"
  shows "edges_priced (weightKG sh) (relax eng goal mc me cur cg nb st)"
proof -
  obtain n c e ri where nb: "nb = (n, c, e, ri)" by (cases nb)
  have "\<And>r. ri = ZoneRoute r \<Longrightarrow> c = calculateCost r (weightKG sh)"
    using assms(2) get_neighbors_cost unfolding nb by blast
  then show ?thesis
    using assms(1)
    by (auto simp: relax_def nb Let_def edges_priced_def split: option.splits
        dest!: set_update_cases)
qed

lemma astar_step_edges_priced:
  assumes "edges_priced (weightKG sh) st" "astar_step eng sh goal fwd mc me h st = Continue st'"
  shows "edges_priced (weightKG sh) st'"
  using assms(2)
proof (cases rule: astar_step_cases)
  case (1 popped rest)
  with assms(1) show ?thesis by (simp add: edges_priced_def)
next
  case (2 popped rest cg)
  with assms(1) show ?thesis by (simp add: edges_priced_def)
next
  case (3 popped rest cg)
  have "edges_priced (weightKG sh) (st\<lparr>open_set := rest, visited := insert (snd (snd popped)) (visited st)\<rparr>)"
    using assms(1) by (simp add: edges_priced_def)
  then show ?thesis
    unfolding 3(5) by (rule fold_relax_invariant) (rule relax_edges_priced)
qed

lemma astar_search_edges_priced:
  assumes "astar_search eng sh start goal fwd mc me h = Inr res"
  shows "\<forall>(n, e) \<in> set (res_edge res). \<forall>r. e_route e = ZoneRoute r
            \<longrightarrow> e_cost e = calculateCost r (weightKG sh)"
proof -
  let ?init = "\<lparr> open_set = heappush [] (heuristic eng start goal, 0, PC start), counter = 1,
                  g_score = [(PC start, 0)], f_score = [(PC start, heuristic eng start goal)],
                  came_from = [], edge_data = [], visited = {} \<rparr>"
  from assms obtain st where loop: "astar_loop eng sh goal fwd mc me h ?init = Inr st"
    and res: "res_edge res = edge_data st"
    by (auto simp: astar_search_def Let_def split: sum.splits)
  have "edges_priced (weightKG sh) st"
    using loop
    by (rule astar_loop_invariant) (simp_all add: edges_priced_def astar_step_edges_priced[unfolded edges_priced_def])
  then show ?thesis by (simp add: edges_priced_def res)
qed

lemma find_mltihop_path_candidates:
  assumes "find_mltihop_path eng sh mc me h k = Some (Inr ps)"
  shows "\<exists>fwd bwd all_paths.
           astar_search eng sh (originPC sh) (destPC sh) True mc me h = Inr fwd
           \<and> astar_search eng sh (destPC sh) (originPC sh) False mc me h = Inr bwd
           \<and> merge_paths eng sh fwd bwd = Some (Inr all_paths)
           \<and> ps = py_take k (sort_key totalCost all_paths)"
  using assms
  by (auto simp: find_mltihop_path_def split: if_splits sum.splits option.splits)

lemma map_insort_key: "map f (insort_key f x xs) = insort (f x) (map f xs)"
  by (induction xs) simp_all

lemma map_sort_key: "map f (sort_key f xs) = sort (map f xs)"
  by (induction xs) (simp_all add: map_insort_key)

text \<open>
  The list that the unidirectional engine returns is \<open>found_paths\<close>, which holds the
  path reconstructed at the goal, or the fallback path when the loop ended without one.
\<close>

lemma fa_find_mltihop_path_found:
  assumes "fa_find_mltihop_path eng sh mc me h k = Some (Inr ps)"
  shows "\<exists>x st. fa_loop eng sh mc (fa_init eng sh) = Some (Inr (x, st))
           \<and> (x = None \<and> ps = [fa_create_default_path eng sh]
                \<or> (\<exists>goal p. x = Some goal
                      \<and> reconstruct_path goal (fa_came_from st) (fa_edge_data st) sh = Some (Inr p)
                      \<and> ps = [p]))"
  using assms unfolding fa_find_mltihop_path_def
  by (auto split: if_splits option.splits sum.splits)


section \<open>Both engines return when no route cost is negative\<close>

subsection \<open>The parent table\<close>

text \<open>
  The parent table together with the recorded costs: along every parent link the cost
  does not decrease, every link carries an edge with a cost that is not negative, and
  following parent links always ends.
\<close>

definition forest_ok ::
  "(Node \<rightharpoonup> Node) \<Rightarrow> (Node \<rightharpoonup> real) \<Rightarrow> (Node \<rightharpoonup> real) \<Rightarrow> bool" where
  "forest_ok cf ec g =
     ((\<forall>n p. cf n = Some p \<longrightarrow>
          (\<exists>c gp gn. ec n = Some c \<and> g p = Some gp \<and> g n = Some gn \<and> 0 \<le> c \<and> gp + c \<le> gn))
      \<and> (\<forall>n. ec n \<noteq> None \<longrightarrow> cf n \<noteq> None)
      \<and> wf {(p, n). cf n = Some p})"

lemma forest_ok_empty: "forest_ok Map.empty Map.empty g"
  by (simp add: forest_ok_def)

lemma forest_mono:
  assumes "forest_ok cf ec g" "(a, b) \<in> {(p, n). cf n = Some p}\<^sup>*"
  shows "a = b \<or> (\<exists>ga gb. g a = Some ga \<and> g b = Some gb \<and> ga \<le> gb)"
  using assms(2)
proof (induction rule: rtrancl_induct)
  case base
  show ?case by simp
next
  case (step y z)
  from step.hyps(2) have "cf z = Some y" by simp
  with assms(1) obtain c gy gz where
    "g y = Some gy" "g z = Some gz" "0 \<le> c" "gy + c \<le> gz"
    unfolding forest_ok_def by blast
  with step.IH show ?case by (cases "a = y") auto
qed

lemma forest_update:
  assumes ok: "forest_ok cf ec g"
    and cur: "g cur = Some gc"
    and c: "0 \<le> c"
    and better: "\<And>gn. g n = Some gn \<Longrightarrow> gc + c < gn"
  shows "forest_ok (cf(n \<mapsto> cur)) (ec(n \<mapsto> c)) (g(n \<mapsto> gc + c))"
proof -
  let ?r = "{(p, m). cf m = Some p}"
  have neq: "n \<noteq> cur"
    using better[of gc] cur c by auto
  have J: "\<And>m p. cf m = Some p \<Longrightarrow>
      \<exists>c gp gn. ec m = Some c \<and> g p = Some gp \<and> g m = Some gn \<and> 0 \<le> c \<and> gp + c \<le> gn"
    using ok unfolding forest_ok_def by blast
  have 1: "\<forall>m p. (cf(n \<mapsto> cur)) m = Some p \<longrightarrow>
      (\<exists>c' gp gn. (ec(n \<mapsto> c)) m = Some c' \<and> (g(n \<mapsto> gc + c)) p = Some gp
          \<and> (g(n \<mapsto> gc + c)) m = Some gn \<and> 0 \<le> c' \<and> gp + c' \<le> gn)"
  proof (intro allI impI)
    fix m p
    assume a: "(cf(n \<mapsto> cur)) m = Some p"
    show "\<exists>c' gp gn. (ec(n \<mapsto> c)) m = Some c' \<and> (g(n \<mapsto> gc + c)) p = Some gp
          \<and> (g(n \<mapsto> gc + c)) m = Some gn \<and> 0 \<le> c' \<and> gp + c' \<le> gn"
    proof (cases "m = n")
      case True
      with a have "p = cur" by simp
      with True neq cur c show ?thesis by simp
    next
      case False
      with a have "cf m = Some p" by simp
      from J[OF this] obtain c' gp gn where
        j: "ec m = Some c'" "g p = Some gp" "g m = Some gn" "0 \<le> c'" "gp + c' \<le> gn"
        by blast
      show ?thesis
      proof (cases "p = n")
        case True
        with j(2) better[of gp] have "gc + c < gp" by simp
        with j False True show ?thesis by auto
      next
        case pn: False
        with j False show ?thesis by auto
      qed
    qed
  qed
  have 2: "\<forall>m. (ec(n \<mapsto> c)) m \<noteq> None \<longrightarrow> (cf(n \<mapsto> cur)) m \<noteq> None"
    using ok unfolding forest_ok_def by auto
  have wfr: "wf ?r" using ok unfolding forest_ok_def by blast
  have notin: "(n, cur) \<notin> ?r\<^sup>*"
  proof
    assume "(n, cur) \<in> ?r\<^sup>*"
    from forest_mono[OF ok this] neq obtain gn gc' where
      "g n = Some gn" "g cur = Some gc'" "gn \<le> gc'" by blast
    with cur better[of gn] c show False by auto
  qed
  have "wf (insert (cur, n) ?r)"
    using wfr notin by (simp add: wf_insert)
  moreover have "{(p, m). (cf(n \<mapsto> cur)) m = Some p} \<subseteq> insert (cur, n) ?r"
    by (auto split: if_splits)
  ultimately have 3: "wf {(p, m). (cf(n \<mapsto> cur)) m = Some p}"
    by (rule wf_subset)
  from 1 2 3 show ?thesis unfolding forest_ok_def by blast
qed

subsection \<open>The bidirectional search keeps the parent table well founded\<close>

text \<open>Every route of the index has, at the weight of the shipment, a cost that is not negative.\<close>

definition nonneg_index :: "GraphIndex \<Rightarrow> real \<Rightarrow> bool" where
  "nonneg_index idx w =
     list_all (\<lambda>(k, rs). list_all (\<lambda>r. 0 \<le> calculateCost r w) rs)
       (zoneAdj idx @ revZoneAdj idx)"

lemma nonneg_index_out:
  "nonneg_index idx w \<Longrightarrow> r \<in> set (get_OutgoingRoutes idx p z)
     \<Longrightarrow> 0 \<le> calculateCost r w"
  unfolding get_OutgoingRoutes_def nonneg_index_def
  by (drule dict_get_in) (fastforce simp: list_all_iff)

lemma nonneg_index_in:
  "nonneg_index idx w \<Longrightarrow> r \<in> set (get_IncomingRoutes idx p z)
     \<Longrightarrow> 0 \<le> calculateCost r w"
  unfolding get_IncomingRoutes_def nonneg_index_def
  by (drule dict_get_in) (fastforce simp: list_all_iff)

lemma neighbors_nonneg:
  assumes "nonneg_index (index eng) (weightKG sh)"
    and "(n, c, e, ri) \<in> set (get_neighbors eng cur sh h fwd)"
  shows "0 \<le> c"
  using assms(2) nonneg_index_out[OF assms(1)] nonneg_index_in[OF assms(1)]
  by (cases cur) (auto split: if_splits)

text \<open>The invariant of the search loop.\<close>

definition search_inv :: "SearchSt \<Rightarrow> bool" where
  "search_inv st =
     (forest_ok (map_of (came_from st)) (map_option e_cost \<circ> map_of (edge_data st))
        (map_of (g_score st))
      \<and> (\<forall>x \<in> set (open_set st). map_of (g_score st) (snd (snd x)) \<noteq> None)
      \<and> (\<forall>(n, e) \<in> set (edge_data st). 0 \<le> e_cost e))"

lemma relax_search_inv:
  assumes inv: "search_inv st" and cur: "map_of (g_score st) cur = Some cg"
    and nn: "0 \<le> fst (snd nb)"
  shows "search_inv (relax eng goal mc me cur cg nb st)
         \<and> map_of (g_score (relax eng goal mc me cur cg nb st)) cur = Some cg"
proof -
  obtain n c e ri where nb: "nb = (n, c, e, ri)" by (cases nb)
  from nn have c: "0 \<le> c" by (simp add: nb)
  let ?st' = "relax eng goal mc me cur cg nb st"
  show ?thesis
  proof (cases "?st' = st")
    case True
    with inv cur show ?thesis by simp
  next
    case False
    then have better: "\<And>gn. map_of (g_score st) n = Some gn \<Longrightarrow> cg + c < gn"
      by (auto simp: relax_def nb Let_def split: option.splits if_splits)
    from False have st': "?st' = st\<lparr> came_from := AList.update n cur (came_from st),
                     g_score := AList.update n (cg + c) (g_score st),
                     f_score := AList.update n (cg + c + heuristic_node eng n goal) (f_score st),
                     edge_data := AList.update n \<lparr> e_cost = c, e_etd = e, e_route = ri \<rparr>
                        (edge_data st),
                     open_set := heappush (open_set st)
                        (cg + c + heuristic_node eng n goal, counter st, n),
                     counter := counter st + 1 \<rparr>"
      by (auto simp: relax_def nb Let_def split: option.splits if_splits)
    have neq: "n \<noteq> cur" using better[of cg] cur c by auto
    have f: "forest_ok (map_of (came_from ?st')) (map_option e_cost \<circ> map_of (edge_data ?st'))
        (map_of (g_score ?st'))"
    proof -
      have "forest_ok ((map_of (came_from st))(n \<mapsto> cur))
              ((map_option e_cost \<circ> map_of (edge_data st))(n \<mapsto> c))
              ((map_of (g_score st))(n \<mapsto> cg + c))"
        using inv cur c better unfolding search_inv_def by (intro forest_update) auto
      moreover have "map_option e_cost \<circ> map_of (AList.update n \<lparr> e_cost = c, e_etd = e, e_route = ri \<rparr>
                        (edge_data st)) = (map_option e_cost \<circ> map_of (edge_data st))(n \<mapsto> c)"
        by (auto simp: update_conv' fun_eq_iff)
      ultimately show ?thesis by (simp add: st' update_conv')
    qed
    have q: "\<forall>x \<in> set (open_set ?st'). map_of (g_score ?st') (snd (snd x)) \<noteq> None"
      using inv unfolding search_inv_def by (auto simp: st' update_conv' heappush_def)
    have ed: "\<forall>(n, e) \<in> set (edge_data ?st'). 0 \<le> e_cost e"
      using inv c unfolding search_inv_def
      by (auto simp: st' dest!: set_update_cases)
    have "map_of (g_score ?st') cur = Some cg"
      using cur neq by (simp add: st' update_conv')
    with f q ed show ?thesis unfolding search_inv_def by blast
  qed
qed

lemma fold_relax_search_inv:
  assumes "search_inv st" "map_of (g_score st) cur = Some cg"
    and "\<forall>nb \<in> set nbs. 0 \<le> fst (snd nb)"
  shows "search_inv (fold (relax eng goal mc me cur cg) nbs st)"
proof -
  have "search_inv (fold (relax eng goal mc me cur cg) nbs st)
        \<and> map_of (g_score (fold (relax eng goal mc me cur cg) nbs st)) cur = Some cg"
    using assms
  proof (induction nbs arbitrary: st)
    case Nil
    then show ?case by simp
  next
    case (Cons nb nbs)
    from relax_search_inv[OF Cons.prems(1,2), of nb eng goal mc me] Cons.prems(3)
    have "search_inv (relax eng goal mc me cur cg nb st)"
      "map_of (g_score (relax eng goal mc me cur cg nb st)) cur = Some cg"
      by simp_all
    from Cons.IH[OF this] Cons.prems(3) show ?case by simp
  qed
  then show ?thesis by simp
qed

lemma astar_step_search_inv:
  assumes nn: "nonneg_index (index eng) (weightKG sh)" and inv: "search_inv st"
  shows "astar_step eng sh goal fwd mc me h st \<noteq> Done (Inl KeyError)
         \<and> (\<forall>st'. astar_step eng sh goal fwd mc me h st = Continue st' \<longrightarrow> search_inv st')"
proof (cases "heappop (open_set st)")
  case None
  then show ?thesis by (simp add: astar_step_def)
next
  case (Some a)
  obtain popped rest where a: "a = (popped, rest)" by (cases a)
  let ?cur = "snd (snd popped)"
  from heappop_SomeD[OF Some[unfolded a]] have mem: "popped \<in> set (open_set st)"
    and rest: "rest = remove1 popped (open_set st)" by auto
  from inv mem obtain cg where cg: "map_of (g_score st) ?cur = Some cg"
    unfolding search_inv_def by blast
  have sub: "set rest \<subseteq> set (open_set st)"
    using rest set_remove1_subset[of popped "open_set st"] by simp
  let ?st1 = "st\<lparr>open_set := rest, visited := insert ?cur (visited st)\<rparr>"
  have inv0: "search_inv (st\<lparr>open_set := rest\<rparr>)"
    using inv sub unfolding search_inv_def by auto
  have inv1: "search_inv ?st1"
    using inv sub unfolding search_inv_def by auto
  have nbs: "\<forall>nb \<in> set (get_neighbors eng ?cur sh h fwd). 0 \<le> fst (snd nb)"
  proof
    fix nb assume "nb \<in> set (get_neighbors eng ?cur sh h fwd)"
    then have "(fst nb, fst (snd nb), fst (snd (snd nb)), snd (snd (snd nb)))
                 \<in> set (get_neighbors eng ?cur sh h fwd)" by simp
    from neighbors_nonneg[OF nn this] show "0 \<le> fst (snd nb)" .
  qed
  have inv2: "search_inv (fold (relax eng goal mc me ?cur cg) (get_neighbors eng ?cur sh h fwd) ?st1)"
    by (rule fold_relax_search_inv[OF inv1 _ nbs]) (simp add: cg)
  show ?thesis
    using Some cg inv0 inv1 inv2
    by (auto simp: astar_step_def a Let_def)
qed

lemma astar_loop_returns:
  assumes "nonneg_index (index eng) (weightKG sh)" "search_inv st"
  shows "\<exists>fin. astar_loop eng sh goal fwd mc me h st = Inr fin \<and> search_inv fin"
  using assms
proof (induction eng sh goal fwd mc me h st rule: astar_loop.induct)
  case (1 eng shipment goalPC forward maxCost maxETD maxHops st)
  note step = astar_step_search_inv[OF "1.prems", of goalPC forward maxCost maxETD maxHops]
  show ?case
  proof (cases "astar_step eng shipment goalPC forward maxCost maxETD maxHops st")
    case (Continue s')
    with step have "search_inv s'" by simp
    from "1.IH"[OF Continue "1.prems"(1) this] Continue show ?thesis
      by (simp add: astar_loop.simps[of _ _ _ _ _ _ _ st])
  next
    case (Done r)
    with step have "r \<noteq> Inl KeyError" by simp
    with Done have "r = Inr st"
      by (auto simp: astar_step_def Let_def split: option.splits if_splits)
    with Done "1.prems"(2) show ?thesis
      by (simp add: astar_loop.simps[of _ _ _ _ _ _ _ st])
  qed
qed

definition result_inv :: "SearchResult \<Rightarrow> bool" where
  "result_inv res =
     (forest_ok (map_of (res_parent res)) (map_option e_cost \<circ> map_of (res_edge res))
        (map_of (res_cost res))
      \<and> (\<forall>(n, e) \<in> set (res_edge res). 0 \<le> e_cost e))"

lemma astar_search_returns:
  assumes "nonneg_index (index eng) (weightKG sh)"
  shows "\<exists>res. astar_search eng sh start goal fwd mc me h = Inr res \<and> result_inv res"
proof -
  let ?init = "\<lparr> open_set = heappush [] (heuristic eng start goal, 0, PC start), counter = 1,
                  g_score = [(PC start, 0)], f_score = [(PC start, heuristic eng start goal)],
                  came_from = [], edge_data = [], visited = {} \<rparr>"
  have "search_inv ?init"
    by (simp add: search_inv_def forest_ok_def heappush_def)
  from astar_loop_returns[OF assms this]
  obtain fin where fin: "astar_loop eng sh goal fwd mc me h ?init = Inr fin" "search_inv fin"
    by blast
  then show ?thesis
    by (simp add: astar_search_def Let_def result_inv_def search_inv_def)
qed

subsection \<open>Unrolling and merging return\<close>

lemma unroll_loop_returns:
  assumes ok: "forest_ok (map_of cf) (map_option e_cost \<circ> map_of ed) g"
    and nn: "\<forall>(n, e) \<in> set ed. 0 \<le> e_cost e"
  shows "0 \<le> tc \<Longrightarrow>
         \<exists>ns' segs' tc' te'. unroll_loop cf ed cur ns segs tc te = Some (Inr (ns', segs', tc', te'))
            \<and> 0 \<le> tc'"
proof -
  have wfr: "wf {(p, n). map_of cf n = Some p}"
    using ok unfolding forest_ok_def by blast
  show "0 \<le> tc \<Longrightarrow>
         \<exists>ns' segs' tc' te'. unroll_loop cf ed cur ns segs tc te = Some (Inr (ns', segs', tc', te'))
            \<and> 0 \<le> tc'"
    using wfr
  proof (induction cur arbitrary: ns segs tc te rule: wf_induct_rule)
    case (less cur)
    show ?case
    proof (cases "map_of cf cur")
      case None
      have "map_of ed cur = None"
      proof (rule ccontr)
        assume "map_of ed cur \<noteq> None"
        then have "(map_option e_cost \<circ> map_of ed) cur \<noteq> None" by auto
        with ok None show False unfolding forest_ok_def by blast
      qed
      with None less.prems show ?thesis
        by (subst unroll_loop.simps) simp
    next
      case (Some par)
      then have r: "(par, cur) \<in> {(p, n). map_of cf n = Some p}" by simp
      show ?thesis
      proof (cases "map_of ed cur")
        case None
        from less.IH[OF r less.prems, of "ns @ [cur]" segs] Some None show ?thesis
          by (subst unroll_loop.simps) simp
      next
        case (Some data)
        then have "(cur, data) \<in> set ed" by (rule map_of_SomeD)
        with nn have "0 \<le> e_cost data" by auto
        with less.prems have "0 \<le> tc + e_cost data" by simp
        from less.IH[OF r this, of "ns @ [cur]" "segs @ [mk_segment par cur data]"]
          Some \<open>map_of cf cur = Some par\<close>
        show ?thesis
          by (subst unroll_loop.simps) simp
      qed
    qed
  qed
qed

lemma unroll_path_returns:
  assumes "result_inv res"
  shows "\<exists>ns segs tc te. unroll_path n (res_parent res) (res_edge res) = Some (Inr (ns, segs, tc, te))
            \<and> 0 \<le> tc"
  using assms unroll_loop_returns[where cf = "res_parent res" and ed = "res_edge res"
      and g = "map_of (res_cost res)" and tc = 0 and te = 0 and cur = n and ns = "[]"
      and segs = "[]"]
  by (simp add: result_inv_def unroll_path_def)

text \<open>A path with finite totals and a total cost that is not negative.\<close>

definition finite_path :: "MultiHopPath \<Rightarrow> bool" where
  "finite_path p = (\<exists>c t. totalCost p = Fin c \<and> 0 \<le> c \<and> totalETD p = Fin t)"

lemma merge_loop_returns:
  assumes "result_inv fwd" "result_inv bwd"
  shows "\<exists>ps'. merge_loop sh fwd bwd ms ps = Some (Inr ps')
           \<and> (ps \<noteq> [] \<longrightarrow> ps' \<noteq> [])
           \<and> ((\<forall>c. PC c \<notin> set ms) \<longrightarrow> ps' = ps)
           \<and> ((\<forall>p \<in> set ps. finite_path p) \<longrightarrow> (\<forall>p \<in> set ps'. finite_path p))"
proof (induction ms arbitrary: ps)
  case Nil
  show ?case by simp
next
  case (Cons m ms)
  show ?case
  proof (cases m)
    case (PZ z p)
    from Cons.IH[of ps] show ?thesis by (auto simp: PZ)
  next
    case (PC c)
    from unroll_path_returns[OF assms(1), of "PC c"] obtain fns fsegs ftc fte where
      f: "unroll_path (PC c) (res_parent fwd) (res_edge fwd) = Some (Inr (fns, fsegs, ftc, fte))"
        "0 \<le> ftc" by blast
    from unroll_path_returns[OF assms(2), of "PC c"] obtain bns bsegs btc bte where
      b: "unroll_path (PC c) (res_parent bwd) (res_edge bwd) = Some (Inr (bns, bsegs, btc, bte))"
        "0 \<le> btc" by blast
    let ?p = "mk_path sh (rev fns @ tl bns) (rev fsegs @ bsegs) (ftc + btc) (fte + bte)"
    have fp: "finite_path ?p"
      using f b by (simp add: finite_path_def mk_path_def)
    from Cons.IH[of "ps @ [?p]"] fp show ?thesis
      by (auto simp: PC f b)
  qed
qed

lemma default_not_finite: "\<not> finite_path (create_default_path eng sh)"
  by (simp add: finite_path_def create_default_path_def)

lemma merge_paths_returns:
  assumes "result_inv fwd" "result_inv bwd"
  shows "\<exists>ps. merge_paths eng sh fwd bwd = Some (Inr ps) \<and> ps \<noteq> []
           \<and> ((\<forall>c. map_of (res_cost fwd) (PC c) = None \<or> map_of (res_cost bwd) (PC c) = None)
                 \<longrightarrow> ps = [create_default_path eng sh])
           \<and> (ps = [create_default_path eng sh] \<or> (\<forall>p \<in> set ps. finite_path p))"
proof -
  from merge_loop_returns[OF assms, of sh "common_nodes eng fwd bwd" "[]"]
  obtain ps' where m: "merge_loop sh fwd bwd (common_nodes eng fwd bwd) [] = Some (Inr ps')"
    "(\<forall>c. PC c \<notin> set (common_nodes eng fwd bwd)) \<longrightarrow> ps' = []"
    "\<forall>p \<in> set ps'. finite_path p"
    by auto
  have mem: "\<And>c. PC c \<in> set (common_nodes eng fwd bwd) \<Longrightarrow>
          map_of (res_cost fwd) (PC c) \<noteq> None \<and> map_of (res_cost bwd) (PC c) \<noteq> None"
    by (auto simp: common_nodes_def weak_map_of_SomeI
        simp del: not_None_eq dest!: map_of_SomeD)
  have none: "(\<forall>c. map_of (res_cost fwd) (PC c) = None \<or> map_of (res_cost bwd) (PC c) = None)
                \<longrightarrow> ps' = []"
  proof
    assume a: "\<forall>c. map_of (res_cost fwd) (PC c) = None \<or> map_of (res_cost bwd) (PC c) = None"
    have "\<forall>c. PC c \<notin> set (common_nodes eng fwd bwd)"
    proof
      fix c
      from a have "map_of (res_cost fwd) (PC c) = None \<or> map_of (res_cost bwd) (PC c) = None" ..
      with mem[of c] show "PC c \<notin> set (common_nodes eng fwd bwd)" by auto
    qed
    with m(2) show "ps' = []" by simp
  qed
  show ?thesis
  proof (cases "ps' = []")
    case True
    with m(1) show ?thesis by (simp add: merge_paths_def)
  next
    case False
    have r: "merge_paths eng sh fwd bwd = Some (Inr ps')"
      using m(1) False by (simp add: merge_paths_def)
    have c3: "(\<forall>c. map_of (res_cost fwd) (PC c) = None \<or> map_of (res_cost bwd) (PC c) = None)
                 \<longrightarrow> ps' = [create_default_path eng sh]"
      using none False by blast
    have c4: "ps' = [create_default_path eng sh] \<or> (\<forall>p \<in> set ps'. finite_path p)"
      using m(3) by blast
    from r False c3 c4 have main: "merge_paths eng sh fwd bwd = Some (Inr ps') \<and> ps' \<noteq> []
           \<and> ((\<forall>c. map_of (res_cost fwd) (PC c) = None \<or> map_of (res_cost bwd) (PC c) = None)
                 \<longrightarrow> ps' = [create_default_path eng sh])
           \<and> (ps' = [create_default_path eng sh] \<or> (\<forall>p \<in> set ps'. finite_path p))"
      by blast
    show ?thesis by (rule exI[of _ ps']) (rule main)
  qed
qed

lemma py_take_nonempty: "1 \<le> k \<Longrightarrow> xs \<noteq> [] \<Longrightarrow> py_take k xs \<noteq> []"
  by (cases xs) (auto simp: py_take_def)

lemma py_take_single: "1 \<le> k \<Longrightarrow> py_take k [x] = [x]"
  by (simp add: py_take_def)

lemma find_mltihop_path_returns:
  assumes known: "map_of (eng_postcodes eng) (originPC sh) \<noteq> None"
      "map_of (eng_postcodes eng) (destPC sh) \<noteq> None"
    and nn: "nonneg_index (index eng) (weightKG sh)"
  shows "\<exists>fwd bwd all_paths.
      astar_search eng sh (originPC sh) (destPC sh) True mc me h = Inr fwd
      \<and> astar_search eng sh (destPC sh) (originPC sh) False mc me h = Inr bwd
      \<and> merge_paths eng sh fwd bwd = Some (Inr all_paths)
      \<and> find_mltihop_path eng sh mc me h k = Some (Inr (py_take k (sort_key totalCost all_paths)))
      \<and> all_paths \<noteq> []
      \<and> ((\<forall>c. map_of (res_cost fwd) (PC c) = None \<or> map_of (res_cost bwd) (PC c) = None)
            \<longrightarrow> all_paths = [create_default_path eng sh])
      \<and> (all_paths = [create_default_path eng sh] \<or> (\<forall>p \<in> set all_paths. finite_path p))"
proof -
  from astar_search_returns[OF nn, of "originPC sh" "destPC sh" True mc me h]
  obtain fwd where f: "astar_search eng sh (originPC sh) (destPC sh) True mc me h = Inr fwd"
    "result_inv fwd" by blast
  from astar_search_returns[OF nn, of "destPC sh" "originPC sh" False mc me h]
  obtain bwd where b: "astar_search eng sh (destPC sh) (originPC sh) False mc me h = Inr bwd"
    "result_inv bwd" by blast
  from merge_paths_returns[OF f(2) b(2), of eng sh]
  obtain ps where m: "merge_paths eng sh fwd bwd = Some (Inr ps)" "ps \<noteq> []"
    "(\<forall>c. map_of (res_cost fwd) (PC c) = None \<or> map_of (res_cost bwd) (PC c) = None)
                 \<longrightarrow> ps = [create_default_path eng sh]"
    "ps = [create_default_path eng sh] \<or> (\<forall>p \<in> set ps. finite_path p)"
    by (elim exE conjE)
  have "find_mltihop_path eng sh mc me h k = Some (Inr (py_take k (sort_key totalCost ps)))"
    using known f(1) b(1) m(1) by (simp add: find_mltihop_path_def)
  with f(1) b(1) m have main:
     "astar_search eng sh (originPC sh) (destPC sh) True mc me h = Inr fwd
      \<and> astar_search eng sh (destPC sh) (originPC sh) False mc me h = Inr bwd
      \<and> merge_paths eng sh fwd bwd = Some (Inr ps)
      \<and> find_mltihop_path eng sh mc me h k = Some (Inr (py_take k (sort_key totalCost ps)))
      \<and> ps \<noteq> []
      \<and> ((\<forall>c. map_of (res_cost fwd) (PC c) = None \<or> map_of (res_cost bwd) (PC c) = None)
            \<longrightarrow> ps = [create_default_path eng sh])
      \<and> (ps = [create_default_path eng sh] \<or> (\<forall>p \<in> set ps. finite_path p))"
    by simp
  show ?thesis
    by (rule exI[of _ fwd], rule exI[of _ bwd], rule exI[of _ ps]) (rule main)
qed

subsection \<open>The unidirectional search ends\<close>

text \<open>
  The loop has no visited set. It ends because every push lowers the recorded cost of a
  vertex, the recorded costs are sums of edge costs, and only finitely many such sums lie
  below a given bound.
\<close>

lemma sum_list_filter_pos:
  "\<forall>c \<in> set cs. (0::real) \<le> c \<Longrightarrow> sum_list (filter (\<lambda>c. 0 < c) cs) = sum_list cs"
  by (induction cs) auto

lemma sum_list_lower:
  "\<forall>c \<in> set xs. (d::real) \<le> c \<Longrightarrow> d * real (length xs) \<le> sum_list xs"
  by (induction xs) (auto simp: algebra_simps)

lemma finite_sums_below:
  assumes fin: "finite C" and nn: "\<forall>c \<in> C. (0::real) \<le> c"
  shows "finite {x \<in> sum_list ` {cs. set cs \<subseteq> C}. x < b}"
proof -
  let ?P = "{c \<in> C. 0 < c}"
  have finP: "finite ?P" using fin by simp
  show ?thesis
  proof (cases "?P = {}")
    case True
    have "sum_list ` {cs. set cs \<subseteq> C} \<subseteq> {0}"
    proof
      fix x assume "x \<in> sum_list ` {cs. set cs \<subseteq> C}"
      then obtain cs where cs: "set cs \<subseteq> C" "x = sum_list cs" by auto
      with True nn have "\<forall>c \<in> set cs. c = 0" by (auto simp: subset_iff) force
      then have "sum_list cs = 0" by (induction cs) auto
      with cs show "x \<in> {0}" by simp
    qed
    then have "finite (sum_list ` {cs. set cs \<subseteq> C})" by (rule finite_subset) simp
    then show ?thesis by simp
  next
    case False
    define d where "d = Min ?P"
    have dpos: "0 < d" using Min_in[OF finP False] by (simp add: d_def)
    have dle: "\<And>c. c \<in> ?P \<Longrightarrow> d \<le> c" using finP by (simp add: d_def)
    define N where "N = nat \<lceil>b / d\<rceil>"
    have "{x \<in> sum_list ` {cs. set cs \<subseteq> C}. x < b}
            \<subseteq> sum_list ` {xs. set xs \<subseteq> ?P \<and> length xs \<le> N}"
    proof
      fix x assume "x \<in> {x \<in> sum_list ` {cs. set cs \<subseteq> C}. x < b}"
      then obtain cs where cs: "set cs \<subseteq> C" "x = sum_list cs" "x < b" by auto
      let ?xs = "filter (\<lambda>c. 0 < c) cs"
      have nncs: "\<forall>c \<in> set cs. 0 \<le> c" using cs(1) nn by auto
      have sx: "sum_list ?xs = x" using sum_list_filter_pos[OF nncs] cs(2) by simp
      have sub: "set ?xs \<subseteq> ?P" using cs(1) by auto
      then have "\<forall>c \<in> set ?xs. d \<le> c" using dle by blast
      from sum_list_lower[OF this] sx cs(3) have "d * real (length ?xs) < b" by simp
      then have "real (length ?xs) < b / d" using dpos by (simp add: field_simps)
      then have "length ?xs \<le> N" unfolding N_def by linarith
      with sub sx show "x \<in> sum_list ` {xs. set xs \<subseteq> ?P \<and> length xs \<le> N}"
        by (intro image_eqI[of _ _ ?xs]) auto
    qed
    moreover have "finite (sum_list ` {xs. set xs \<subseteq> ?P \<and> length xs \<le> N})"
      using finite_lists_length_le[OF finP] by simp
    ultimately show ?thesis by (rule finite_subset)
  qed
qed

text \<open>The edge costs of the search graph, and the sums of finitely many of them.\<close>

definition cost_set :: "GraphIndex \<Rightarrow> real \<Rightarrow> real set" where
  "cost_set idx w =
     insert 0 ((\<lambda>r. calculateCost r w) ` (\<Union>(k, rs) \<in> set (zoneAdj idx). set rs))"

definition reach_costs :: "GraphIndex \<Rightarrow> real \<Rightarrow> real set" where
  "reach_costs idx w = sum_list ` {cs. set cs \<subseteq> cost_set idx w}"

lemma finite_cost_set: "finite (cost_set idx w)"
  by (auto simp: cost_set_def)

lemma cost_set_nonneg: "nonneg_index idx w \<Longrightarrow> \<forall>c \<in> cost_set idx w. 0 \<le> c"
  by (fastforce simp: cost_set_def nonneg_index_def list_all_iff)

lemma finite_below: "nonneg_index idx w \<Longrightarrow> finite {x \<in> reach_costs idx w. x < b}"
  unfolding reach_costs_def
  by (rule finite_sums_below[OF finite_cost_set cost_set_nonneg])

lemma reach_costs_zero: "0 \<in> reach_costs idx w"
  unfolding reach_costs_def by (rule image_eqI[of _ _ "[]"]) simp_all

lemma reach_costs_add:
  assumes "x \<in> reach_costs idx w" "c \<in> cost_set idx w"
  shows "x + c \<in> reach_costs idx w"
proof -
  from assms(1) obtain cs where "set cs \<subseteq> cost_set idx w" "x = sum_list cs"
    by (auto simp: reach_costs_def)
  with assms(2) show ?thesis
    unfolding reach_costs_def by (intro image_eqI[of _ _ "c # cs"]) auto
qed

definition below :: "GraphIndex \<Rightarrow> real \<Rightarrow> real \<Rightarrow> nat" where
  "below idx w v = card {x \<in> reach_costs idx w. x < v}"

lemma below_less:
  assumes "nonneg_index idx w" "new \<in> reach_costs idx w" "new < old"
  shows "below idx w new < below idx w old"
  unfolding below_def
proof (rule psubset_card_mono)
  show "finite {x \<in> reach_costs idx w. x < old}" by (rule finite_below[OF assms(1)])
  show "{x \<in> reach_costs idx w. x < new} \<subset> {x \<in> reach_costs idx w. x < old}"
    using assms(2,3) by auto
qed

lemma forward_neighbors_universe:
  "fst ` set (get_forward_neighbors eng n sh) \<subseteq> universe (fa_index eng)"
  by (cases n) (auto simp: universe_entry universe_out universe_exit)

lemma forward_neighbors_cost:
  assumes "nonneg_index (fa_index eng) (weightKG sh)"
    and "(n, c, e, info) \<in> set (get_forward_neighbors eng cur sh)"
  shows "0 \<le> c \<and> c \<in> cost_set (fa_index eng) (weightKG sh)"
proof (cases cur)
  case (PC x)
  with assms(2) show ?thesis by (auto simp: cost_set_def)
next
  case (PZ z p)
  from assms(2) consider r where "r \<in> set (get_OutgoingRoutes (fa_index eng) p z)"
      "c = calculateCost r (weightKG sh)"
    | "c = 0"
    unfolding PZ by auto
  then show ?thesis
  proof cases
    case 1
    from 1(1) obtain rs where "((p, z), rs) \<in> set (zoneAdj (fa_index eng))" "r \<in> set rs"
      unfolding get_OutgoingRoutes_def by (auto dest!: dict_get_in)
    then have "c \<in> cost_set (fa_index eng) (weightKG sh)"
      unfolding cost_set_def 1(2) by (intro insertI2 imageI) blast
    with nonneg_index_out[OF assms(1) 1(1)] 1 show ?thesis by simp
  next
    case 2
    then show ?thesis by (simp add: cost_set_def)
  qed
qed

definition fa_inv :: "FreightAStarEngine \<Rightarrow> Shipment \<Rightarrow> FaSt \<Rightarrow> bool" where
  "fa_inv eng sh st =
     (forest_ok (map_of (fa_came_from st)) (map_option fe_cost \<circ> map_of (fa_edge_data st))
        (map_of (fa_g_score st))
      \<and> (\<forall>x \<in> set (fa_open_set st). map_of (fa_g_score st) (snd (snd x)) \<noteq> None)
      \<and> (\<forall>(n, e) \<in> set (fa_edge_data st). 0 \<le> fe_cost e)
      \<and> (\<forall>(n, v) \<in> set (fa_g_score st). v \<in> reach_costs (fa_index eng) (weightKG sh)))"

definition m1 :: "FreightAStarEngine \<Rightarrow> FaSt \<Rightarrow> nat" where
  "m1 eng st = card (universe (fa_index eng) - fst ` set (fa_g_score st))"

definition m2 :: "FreightAStarEngine \<Rightarrow> Shipment \<Rightarrow> FaSt \<Rightarrow> nat" where
  "m2 eng sh st = sum_list (map (\<lambda>(n, v). below (fa_index eng) (weightKG sh) v) (fa_g_score st))"

lemma sum_list_update:
  "map_of al k = Some old \<Longrightarrow>
   sum_list (map (\<lambda>(n, v). f v) (AList.update k new al)) + f old
     = sum_list (map (\<lambda>(n, v). f v) al) + (f new :: nat)"
  by (induction al) (auto split: if_splits)

text \<open>One relaxation either leaves the state as it is or makes progress.\<close>

lemma fa_relax_progress:
  assumes nn: "nonneg_index (fa_index eng) (weightKG sh)"
    and inv: "fa_inv eng sh st"
    and cur: "map_of (fa_g_score st) cur \<noteq> None"
    and nb: "nb \<in> set (get_forward_neighbors eng cur sh)"
  shows "\<exists>st'. fa_relax eng sh mc cur nb (Inr st) = Inr st' \<and> fa_inv eng sh st'
           \<and> map_of (fa_g_score st') cur \<noteq> None
           \<and> (st' = st \<or> m1 eng st' < m1 eng st
                \<or> (m1 eng st' = m1 eng st \<and> m2 eng sh st' < m2 eng sh st))"
proof -
  obtain n c e info where nbe: "nb = (n, c, e, info)" by (cases nb)
  from cur obtain gc where gc: "map_of (fa_g_score st) cur = Some gc" by auto
  from forward_neighbors_cost[OF nn nb[unfolded nbe]]
  have c: "0 \<le> c" and cin: "c \<in> cost_set (fa_index eng) (weightKG sh)"
    by simp_all
  from nb have nU: "n \<in> universe (fa_index eng)"
    using forward_neighbors_universe[of eng cur sh] unfolding nbe by force
  let ?r = "fa_relax eng sh mc cur nb (Inr st)"
  show ?thesis
  proof (cases "?r = Inr st")
    case True
    with inv cur show ?thesis by simp
  next
    case False
    then have better: "\<And>gn. map_of (fa_g_score st) n = Some gn \<Longrightarrow> gc + c < gn"
      by (auto simp: fa_relax_def nbe gc Let_def split: option.splits if_splits)
    define st' where "st' = st\<lparr> fa_came_from := AList.update n cur (fa_came_from st),
                     fa_g_score := AList.update n (gc + c) (fa_g_score st),
                     fa_edge_data := AList.update n \<lparr> fe_cost = c, fe_etd = e, fe_info = info \<rparr>
                        (fa_edge_data st),
                     fa_counter := fa_counter st + 1,
                     fa_open_set := heappush (fa_open_set st)
                        (gc + c + fa_heuristic_node eng n (destPC sh), fa_counter st + 1, n) \<rparr>"
    from False have r: "?r = Inr st'"
      by (auto simp: fa_relax_def nbe gc Let_def st'_def split: option.splits if_splits)
    have neq: "n \<noteq> cur" using better[of gc] gc c by auto
    have gcM: "gc \<in> reach_costs (fa_index eng) (weightKG sh)"
      using inv map_of_SomeD[OF gc] unfolding fa_inv_def by auto
    have newM: "gc + c \<in> reach_costs (fa_index eng) (weightKG sh)"
      by (rule reach_costs_add[OF gcM cin])
    have f: "forest_ok (map_of (fa_came_from st')) (map_option fe_cost \<circ> map_of (fa_edge_data st'))
        (map_of (fa_g_score st'))"
    proof -
      have "forest_ok ((map_of (fa_came_from st))(n \<mapsto> cur))
              ((map_option fe_cost \<circ> map_of (fa_edge_data st))(n \<mapsto> c))
              ((map_of (fa_g_score st))(n \<mapsto> gc + c))"
        using inv gc c better unfolding fa_inv_def by (intro forest_update) auto
      moreover have "map_option fe_cost \<circ> map_of (AList.update n \<lparr> fe_cost = c, fe_etd = e, fe_info = info \<rparr>
                        (fa_edge_data st)) = (map_option fe_cost \<circ> map_of (fa_edge_data st))(n \<mapsto> c)"
        by (auto simp: update_conv' fun_eq_iff)
      ultimately show ?thesis by (simp add: st'_def update_conv')
    qed
    have q: "\<forall>x \<in> set (fa_open_set st'). map_of (fa_g_score st') (snd (snd x)) \<noteq> None"
      using inv unfolding fa_inv_def by (auto simp: st'_def update_conv' heappush_def)
    have ed: "\<forall>(n, e) \<in> set (fa_edge_data st'). 0 \<le> fe_cost e"
      using inv c unfolding fa_inv_def
      by (auto simp: st'_def dest!: set_update_cases)
    have gm: "\<forall>(n, v) \<in> set (fa_g_score st'). v \<in> reach_costs (fa_index eng) (weightKG sh)"
      using inv newM unfolding fa_inv_def
      by (auto simp: st'_def dest!: set_update_cases)
    have inv': "fa_inv eng sh st'"
      using f q ed gm unfolding fa_inv_def by blast
    have cur': "map_of (fa_g_score st') cur \<noteq> None"
      using gc neq by (simp add: st'_def update_conv')
    have prog: "m1 eng st' < m1 eng st \<or> (m1 eng st' = m1 eng st \<and> m2 eng sh st' < m2 eng sh st)"
    proof (cases "map_of (fa_g_score st) n")
      case None
      then have "n \<notin> fst ` set (fa_g_score st)" by (simp add: map_of_eq_None_iff)
      with nU have "universe (fa_index eng) - fst ` set (fa_g_score st')
                     \<subset> universe (fa_index eng) - fst ` set (fa_g_score st)"
        by (auto simp: st'_def dom_update)
      then have "m1 eng st' < m1 eng st"
        unfolding m1_def by (intro psubset_card_mono) (simp_all add: finite_universe)
      then show ?thesis by simp
    next
      case (Some old)
      then have "n \<in> fst ` set (fa_g_score st)"
        by (metis map_of_eq_None_iff option.distinct(1))
      then have "fst ` set (fa_g_score st') = fst ` set (fa_g_score st)"
        by (auto simp: st'_def dom_update)
      then have e1: "m1 eng st' = m1 eng st" by (simp add: m1_def)
      from better[OF Some] have "below (fa_index eng) (weightKG sh) (gc + c)
                                   < below (fa_index eng) (weightKG sh) old"
        by (intro below_less[OF nn newM])
      with sum_list_update[OF Some, of "below (fa_index eng) (weightKG sh)" "gc + c"]
      have "m2 eng sh st' < m2 eng sh st"
        by (simp add: m2_def st'_def)
      with e1 show ?thesis by simp
    qed
    from r inv' cur' prog show ?thesis by blast
  qed
qed

lemma fold_fa_relax_Inl: "fold (fa_relax eng sh mc cur) nbs (Inl e) = Inl e"
  by (induction nbs) (simp_all add: fa_relax_def)

lemma fold_fa_relax_progress:
  assumes nn: "nonneg_index (fa_index eng) (weightKG sh)"
  shows "fa_inv eng sh st \<Longrightarrow> map_of (fa_g_score st) cur \<noteq> None
    \<Longrightarrow> set nbs \<subseteq> set (get_forward_neighbors eng cur sh)
    \<Longrightarrow> \<exists>st'. fold (fa_relax eng sh mc cur) nbs (Inr st) = Inr st' \<and> fa_inv eng sh st'
           \<and> (st' = st \<or> m1 eng st' < m1 eng st
                \<or> (m1 eng st' = m1 eng st \<and> m2 eng sh st' < m2 eng sh st))"
proof (induction nbs arbitrary: st)
  case Nil
  then show ?case by simp
next
  case (Cons nb nbs)
  from Cons.prems(3) have nb: "nb \<in> set (get_forward_neighbors eng cur sh)"
    and rest: "set nbs \<subseteq> set (get_forward_neighbors eng cur sh)" by auto
  from fa_relax_progress[OF nn Cons.prems(1,2) nb, of mc] obtain s1 where
    s1: "fa_relax eng sh mc cur nb (Inr st) = Inr s1" "fa_inv eng sh s1"
      "map_of (fa_g_score s1) cur \<noteq> None"
      "s1 = st \<or> m1 eng s1 < m1 eng st \<or> (m1 eng s1 = m1 eng st \<and> m2 eng sh s1 < m2 eng sh st)"
    by blast
  from Cons.IH[OF s1(2,3) rest] obtain s2 where
    s2: "fold (fa_relax eng sh mc cur) nbs (Inr s1) = Inr s2" "fa_inv eng sh s2"
      "s2 = s1 \<or> m1 eng s2 < m1 eng s1 \<or> (m1 eng s2 = m1 eng s1 \<and> m2 eng sh s2 < m2 eng sh s1)"
    by blast
  have "s2 = st \<or> m1 eng s2 < m1 eng st \<or> (m1 eng s2 = m1 eng st \<and> m2 eng sh s2 < m2 eng sh st)"
    using s1(4) s2(3) by auto
  with s1(1) s2(1,2) show ?case by simp
qed

definition fa_measure :: "FreightAStarEngine \<Rightarrow> Shipment \<Rightarrow> (FaSt \<times> FaSt) set" where
  "fa_measure eng sh = measures [m1 eng, m2 eng sh, \<lambda>st. length (fa_open_set st)]"

lemma fa_step_progress:
  assumes nn: "nonneg_index (fa_index eng) (weightKG sh)" and inv: "fa_inv eng sh st"
  shows "(\<exists>x st'. fa_step eng sh mc st = Done (Inr (x, st')) \<and> fa_inv eng sh st')
         \<or> (\<exists>st'. fa_step eng sh mc st = Continue st' \<and> fa_inv eng sh st'
                 \<and> (st', st) \<in> fa_measure eng sh)"
proof (cases "heappop (fa_open_set st)")
  case None
  with inv show ?thesis by (simp add: fa_step_def)
next
  case (Some a)
  obtain popped rest where a: "a = (popped, rest)" by (cases a)
  let ?cur = "snd (snd popped)"
  from heappop_SomeD[OF Some[unfolded a]] have mem: "popped \<in> set (fa_open_set st)"
    and rest: "rest = remove1 popped (fa_open_set st)" by auto
  from inv mem obtain cg where cg: "map_of (fa_g_score st) ?cur = Some cg"
    unfolding fa_inv_def by blast
  have sub: "set rest \<subseteq> set (fa_open_set st)"
    using rest set_remove1_subset[of popped "fa_open_set st"] by simp
  have len: "length rest < length (fa_open_set st)"
    using mem rest length_pos_if_in_set[OF mem] by (simp add: length_remove1)
  let ?st1 = "st\<lparr>fa_open_set := rest\<rparr>"
  have inv1: "fa_inv eng sh ?st1"
    using inv sub unfolding fa_inv_def by auto
  have meas1: "(?st1, st) \<in> fa_measure eng sh"
    using len by (simp add: fa_measure_def m1_def m2_def)
  show ?thesis
  proof (cases "?cur = PC (destPC sh)")
    case True
    with Some inv1 show ?thesis by (simp add: fa_step_def a Let_def)
  next
    case notgoal: False
    show ?thesis
    proof (cases "mc < Fin cg")
      case True
      with Some notgoal cg inv1 meas1 show ?thesis by (simp add: fa_step_def a Let_def)
    next
      case False
      from fold_fa_relax_progress[OF nn inv1, of ?cur "get_forward_neighbors eng ?cur sh" mc] cg
      obtain s2 where s2: "fold (fa_relax eng sh mc ?cur) (get_forward_neighbors eng ?cur sh) (Inr ?st1)
             = Inr s2" "fa_inv eng sh s2"
         "s2 = ?st1 \<or> m1 eng s2 < m1 eng ?st1
            \<or> (m1 eng s2 = m1 eng ?st1 \<and> m2 eng sh s2 < m2 eng sh ?st1)"
        by auto
      have "(s2, st) \<in> fa_measure eng sh"
        using s2(3) meas1 by (auto simp: fa_measure_def m1_def m2_def)
      with Some notgoal cg False s2(1,2) show ?thesis by (simp add: fa_step_def a Let_def)
    qed
  qed
qed

lemma fa_loop_returns:
  assumes nn: "nonneg_index (fa_index eng) (weightKG sh)"
  shows "fa_inv eng sh st \<Longrightarrow>
         \<exists>x st'. fa_loop eng sh mc st = Some (Inr (x, st')) \<and> fa_inv eng sh st'"
proof -
  have wfm: "wf (fa_measure eng sh)" by (simp add: fa_measure_def)
  show "fa_inv eng sh st \<Longrightarrow>
         \<exists>x st'. fa_loop eng sh mc st = Some (Inr (x, st')) \<and> fa_inv eng sh st'"
    using wfm
  proof (induction st rule: wf_induct_rule)
    case (less st)
    from fa_step_progress[OF nn less.prems, of mc] show ?case
    proof (elim disjE exE conjE)
      fix x st'
      assume "fa_step eng sh mc st = Done (Inr (x, st'))" "fa_inv eng sh st'"
      then show ?thesis by (subst fa_loop.simps) simp
    next
      fix st'
      assume s: "fa_step eng sh mc st = Continue st'" "fa_inv eng sh st'"
        "(st', st) \<in> fa_measure eng sh"
      from less.IH[OF s(3,2)] s(1) show ?thesis by (subst fa_loop.simps) simp
    qed
  qed
qed

lemma reconstruct_loop_returns:
  assumes ok: "forest_ok (map_of cf) (map_option fe_cost \<circ> map_of ed) g"
    and nn: "\<forall>(n, e) \<in> set ed. 0 \<le> fe_cost e"
  shows "0 \<le> tc \<Longrightarrow>
         \<exists>ns' segs' tc' te'. reconstruct_loop cf ed cur ns segs tc te
              = Some (Inr (ns', segs', tc', te')) \<and> 0 \<le> tc'"
proof -
  have wfr: "wf {(p, n). map_of cf n = Some p}"
    using ok unfolding forest_ok_def by blast
  show "0 \<le> tc \<Longrightarrow>
         \<exists>ns' segs' tc' te'. reconstruct_loop cf ed cur ns segs tc te
              = Some (Inr (ns', segs', tc', te')) \<and> 0 \<le> tc'"
    using wfr
  proof (induction cur arbitrary: ns segs tc te rule: wf_induct_rule)
    case (less cur)
    show ?case
    proof (cases "map_of cf cur")
      case None
      with less.prems show ?thesis
        by (subst reconstruct_loop.simps) simp
    next
      case (Some prev)
      then have r: "(prev, cur) \<in> {(p, n). map_of cf n = Some p}" by simp
      from ok Some obtain c where "(map_option fe_cost \<circ> map_of ed) cur = Some c"
        unfolding forest_ok_def by blast
      then obtain data where data: "map_of ed cur = Some data" by auto
      then have "(cur, data) \<in> set ed" by (rule map_of_SomeD)
      with nn have "0 \<le> fe_cost data" by auto
      with less.prems have "0 \<le> tc + fe_cost data" by simp
      from less.IH[OF r this] Some data show ?thesis
        by (subst reconstruct_loop.simps) simp
    qed
  qed
qed

lemma fa_init_inv: "fa_inv eng sh (fa_init eng sh)"
  by (simp add: fa_init_def Let_def fa_inv_def forest_ok_def heappush_def reach_costs_zero)

lemma fa_find_mltihop_path_returns:
  assumes known: "map_of (fa_postcodes eng) (originPC sh) \<noteq> None"
      "map_of (fa_postcodes eng) (destPC sh) \<noteq> None"
    and nn: "nonneg_index (fa_index eng) (weightKG sh)"
  shows "\<exists>x st.
      fa_loop eng sh mc (fa_init eng sh) = Some (Inr (x, st))
      \<and> (x = None \<longrightarrow> fa_find_mltihop_path eng sh mc me h k
                         = Some (Inr [fa_create_default_path eng sh]))
      \<and> (x \<noteq> None \<longrightarrow> (\<exists>p. fa_find_mltihop_path eng sh mc me h k = Some (Inr [p])
                             \<and> finite_path p))"
proof -
  from known obtain po pd where kn: "map_of (fa_postcodes eng) (originPC sh) = Some po"
    "map_of (fa_postcodes eng) (destPC sh) = Some pd" by auto
  from fa_loop_returns[OF nn fa_init_inv, of mc] obtain x st where
    l: "fa_loop eng sh mc (fa_init eng sh) = Some (Inr (x, st))" "fa_inv eng sh st" by blast
  have a: "x = None \<longrightarrow> fa_find_mltihop_path eng sh mc me h k
                         = Some (Inr [fa_create_default_path eng sh])"
    using kn l(1) by (simp add: fa_find_mltihop_path_def)
  have b: "x \<noteq> None \<longrightarrow> (\<exists>p. fa_find_mltihop_path eng sh mc me h k = Some (Inr [p])
                             \<and> finite_path p)"
  proof
    assume "x \<noteq> None"
    then obtain goal where x: "x = Some goal" by auto
    from l(2) reconstruct_loop_returns[where cf = "fa_came_from st" and ed = "fa_edge_data st"
        and g = "map_of (fa_g_score st)" and tc = 0 and te = 0 and cur = goal
        and ns = "[]" and segs = "[]"]
    obtain ns segs tc te where
      r: "reconstruct_loop (fa_came_from st) (fa_edge_data st) goal [] [] 0 0
            = Some (Inr (ns, segs, tc, te))" "0 \<le> tc"
      unfolding fa_inv_def by auto
    have "fa_find_mltihop_path eng sh mc me h k
            = Some (Inr [mk_path sh (rev ns) (rev segs) tc te])"
      using kn l(1) r(1) by (simp add: fa_find_mltihop_path_def x reconstruct_path_def)
    moreover have "finite_path (mk_path sh (rev ns) (rev segs) tc te)"
      using r(2) by (simp add: finite_path_def mk_path_def)
    ultimately show "\<exists>p. fa_find_mltihop_path eng sh mc me h k = Some (Inr [p]) \<and> finite_path p"
      by blast
  qed
  from l(1) a b show ?thesis by blast
qed

section \<open>A cyclic parent table\<close>

text \<open>On a set of vertices that is closed under the parent table the unrolling never ends.\<close>

lemma unroll_loop_never_Some:
  assumes closed: "\<forall>n \<in> S. \<exists>p \<in> S. map_of cf n = Some p"
    and major: "unroll_loop cf' ed cur ns segs tc te = Some y"
  shows "\<not> (cf' = cf \<and> cur \<in> S)"
proof (rule unroll_loop.raw_induct[where P = "\<lambda>cf' ed cur ns segs tc te y. \<not> (cf' = cf \<and> cur \<in> S)",
      OF _ major])
  fix f :: "(Node, Node) dict \<Rightarrow> (Node, edge) dict \<Rightarrow> Node \<Rightarrow> Node list \<Rightarrow> segment list \<Rightarrow> real
     \<Rightarrow> real \<Rightarrow> (py_error + Node list \<times> segment list \<times> real \<times> real) option"
  fix cf' ed cur ns segs tc te y
  assume IH: "\<And>cf' ed cur ns segs tc te y.
      f cf' ed cur ns segs tc te = Some y \<Longrightarrow> \<not> (cf' = cf \<and> cur \<in> S)"
  assume body: "(case map_of ed cur of
        None \<Rightarrow>
          (case map_of cf' cur of
             None \<Rightarrow> Some (Inr (ns @ [cur], segs, tc, te))
           | Some par \<Rightarrow> f cf' ed par (ns @ [cur]) segs tc te)
      | Some data \<Rightarrow>
          (case map_of cf' cur of
             None \<Rightarrow> Some (Inl KeyError)
           | Some par \<Rightarrow>
               f cf' ed par (ns @ [cur]) (segs @ [mk_segment par cur data])
                 (tc + e_cost data) (te + e_etd data))) = Some y"
  show "\<not> (cf' = cf \<and> cur \<in> S)"
  proof
    assume a: "cf' = cf \<and> cur \<in> S"
    with closed obtain p where p: "p \<in> S" "map_of cf cur = Some p" by blast
    from body a p(2) obtain ns' segs' tc' te' where "f cf ed p ns' segs' tc' te' = Some y"
      by (auto split: option.splits)
    from IH[OF this] p(1) show False by simp
  qed
qed

lemma unroll_loop_cycle:
  assumes "\<forall>n \<in> S. \<exists>p \<in> S. map_of cf n = Some p" "cur \<in> S"
  shows "unroll_loop cf ed cur ns segs tc te = None"
proof (cases "unroll_loop cf ed cur ns segs tc te")
  case None
  then show ?thesis .
next
  case (Some y)
  from unroll_loop_never_Some[OF assms(1) Some] assms(2) show ?thesis by simp
qed

text \<open>
  With the round trip of cost \<open>-1\<close> both searches leave the zones \<open>ZA\<close> and \<open>ZB\<close> as
  each other's parent, and unrolling from the first meeting postcode runs round this cycle
  for ever: the call does not return.
\<close>

lemma negative_cycle_no_return:
  "find_mltihop_path (ex_bi ex_index_neg) (ex_shipment ''A'' ''B'' 100) PInf PInf 5 10 = None"
proof -
  let ?rAB = "ex_route ''ZA'' ''ZB'' 1 10"
  let ?rBA = "ex_route ''ZB'' ''ZA'' (- 2) 10"
  let ?fp = "[(PZ ''ZA'' ''P'', PZ ''ZB'' ''P''), (PZ ''ZB'' ''P'', PZ ''ZA'' ''P''),
              (PC ''B'', PZ ''ZB'' ''P'')]"
  let ?fe = "[(PZ ''ZA'' ''P'', \<lparr>e_cost = - 2, e_etd = 10, e_route = ZoneRoute ?rBA\<rparr>),
              (PZ ''ZB'' ''P'', \<lparr>e_cost = 1, e_etd = 10, e_route = ZoneRoute ?rAB\<rparr>),
              (PC ''B'', \<lparr>e_cost = 0, e_etd = 0, e_route = Exit\<rparr>)]"
  let ?bp = "[(PZ ''ZB'' ''P'', PZ ''ZA'' ''P''), (PZ ''ZA'' ''P'', PZ ''ZB'' ''P''),
              (PC ''A'', PZ ''ZA'' ''P'')]"
  let ?be = "[(PZ ''ZB'' ''P'', \<lparr>e_cost = - 2, e_etd = 10, e_route = ZoneRoute ?rBA\<rparr>),
              (PZ ''ZA'' ''P'', \<lparr>e_cost = 1, e_etd = 10, e_route = ZoneRoute ?rAB\<rparr>),
              (PC ''A'', \<lparr>e_cost = 0, e_etd = 0, e_route = Entry\<rparr>)]"
  let ?fwd = "\<lparr>res_parent = ?fp,
               res_cost = [(PC ''A'', 0), (PZ ''ZA'' ''P'', - 1), (PZ ''ZB'' ''P'', 1), (PC ''B'', 1)],
               res_edge = ?fe\<rparr>"
  let ?bwd = "\<lparr>res_parent = ?bp,
               res_cost = [(PC ''B'', 0), (PZ ''ZB'' ''P'', - 1), (PZ ''ZA'' ''P'', 1), (PC ''A'', 1)],
               res_edge = ?be\<rparr>"
  have f: "astar_search (ex_bi ex_index_neg) (ex_shipment ''A'' ''B'' 100) ''A'' ''B'' True
             PInf PInf 5 = Inr ?fwd"
    by (simp add: ex_simps index_simps heap_simps search_simps)
  have b: "astar_search (ex_bi ex_index_neg) (ex_shipment ''A'' ''B'' 100) ''B'' ''A'' False
             PInf PInf 5 = Inr ?bwd"
    by (simp add: ex_simps index_simps heap_simps search_simps)
  have uf: "unroll_path (PC ''A'') ?fp ?fe = Some (Inr ([PC ''A''], [], 0, 0))"
    unfolding unroll_path_def by (subst unroll_loop.simps) simp
  have "unroll_loop ?bp ?be (PZ ''ZA'' ''P'') [PC ''A'']
          [mk_segment (PZ ''ZA'' ''P'') (PC ''A'') \<lparr>e_cost = 0, e_etd = 0, e_route = Entry\<rparr>] 0 0 = None"
    by (rule unroll_loop_cycle[where S = "{PZ ''ZA'' ''P'', PZ ''ZB'' ''P''}"]) simp_all
  then have ub: "unroll_path (PC ''A'') ?bp ?be = None"
    unfolding unroll_path_def by (subst unroll_loop.simps) simp
  have cn: "common_nodes (ex_bi ex_index_neg) ?fwd ?bwd
              = [PC ''A'', PZ ''ZA'' ''P'', PZ ''ZB'' ''P'', PC ''B'']"
    by (simp add: common_nodes_def ex_bi_def)
  have "merge_paths (ex_bi ex_index_neg) (ex_shipment ''A'' ''B'' 100) ?fwd ?bwd = None"
    unfolding merge_paths_def cn by (simp add: uf ub)
  moreover have "map_of (eng_postcodes (ex_bi ex_index_neg)) ''A'' \<noteq> None"
    "map_of (eng_postcodes (ex_bi ex_index_neg)) ''B'' \<noteq> None"
    by (simp_all add: ex_simps index_simps)
  ultimately show ?thesis
    unfolding find_mltihop_path_def f b
    by (simp add: ex_shipment_def f[unfolded ex_shipment_def] b[unfolded ex_shipment_def])
qed

section \<open>A route of negative cost in the unidirectional search\<close>

lemma heap_lt_trans: "heap_lt a b \<Longrightarrow> heap_lt b c \<Longrightarrow> heap_lt a c"
  by (auto simp: heap_lt_def)

lemma heap_lt_irrefl: "\<not> heap_lt a a"
  by (simp add: heap_lt_def)

lemma heap_least_minimal:
  "\<forall>y \<in> set (x # xs). \<not> heap_lt y (fold (\<lambda>y m. if heap_lt y m then y else m) xs x)"
proof (induction xs arbitrary: x)
  case Nil
  show ?case by (simp add: heap_lt_irrefl)
next
  case (Cons z zs)
  show ?case
  proof (cases "heap_lt z x")
    case True
    from Cons.IH[of z] have m: "\<forall>y \<in> set (z # zs). \<not> heap_lt y (fold (\<lambda>y m. if heap_lt y m then y else m) zs z)" .
    then have "\<not> heap_lt z (fold (\<lambda>y m. if heap_lt y m then y else m) zs z)" by simp
    with True have "\<not> heap_lt x (fold (\<lambda>y m. if heap_lt y m then y else m) zs z)"
      using heap_lt_trans by blast
    with m True show ?thesis by simp
  next
    case False
    from Cons.IH[of x] have m: "\<forall>y \<in> set (x # zs). \<not> heap_lt y (fold (\<lambda>y m. if heap_lt y m then y else m) zs x)" .
    then have "\<not> heap_lt x (fold (\<lambda>y m. if heap_lt y m then y else m) zs x)" by simp
    with False have "\<not> heap_lt z (fold (\<lambda>y m. if heap_lt y m then y else m) zs x)"
      by (auto simp: heap_lt_def split: if_splits)
    with m False show ?thesis by simp
  qed
qed

lemma heappop_least:
  assumes "m \<in> set q" and "\<forall>x \<in> set q. x = m \<or> heap_lt m x"
  shows "heappop q = Some (m, remove1 m q)"
proof (cases q)
  case Nil
  with assms(1) show ?thesis by simp
next
  case (Cons x xs)
  let ?r = "fold (\<lambda>y m. if heap_lt y m then y else m) xs x"
  from heap_least_in[of xs x] have "?r \<in> set q" by (simp add: Cons)
  with assms(2) have "?r = m \<or> heap_lt m ?r" by blast
  moreover from heap_least_minimal[of x xs] assms(1) have "\<not> heap_lt m ?r" by (auto simp: Cons)
  ultimately have "?r = m" by simp
  then show ?thesis by (simp add: heappop_def Cons Let_def)
qed

text \<open>
  The unidirectional search over a route of cost \<open>-1\<close> from the zone \<open>ZA\<close> to itself.
  Whenever the least queue entry is a \<open>ZA\<close> entry that carries the current cost of
  \<open>ZA\<close>, and that cost is at most the cost of \<open>A\<close>, one pass lowers both costs by 1
  and pushes such an entry again: the loop never ends.
\<close>

definition loop_inv :: "FaSt \<Rightarrow> bool" where
  "loop_inv st =
     (\<exists>f c a. (f, c, PZ ''ZA'' ''P'') \<in> set (fa_open_set st)
        \<and> (\<forall>x \<in> set (fa_open_set st). x = (f, c, PZ ''ZA'' ''P'') \<or> heap_lt (f, c, PZ ''ZA'' ''P'') x)
        \<and> map_of (fa_g_score st) (PZ ''ZA'' ''P'') = Some f
        \<and> map_of (fa_g_score st) (PC ''A'') = Some a \<and> f \<le> a)"

lemma loop_step:
  assumes "loop_inv st"
  shows "\<exists>st'. fa_step (ex_fa ex_index_loop) (ex_shipment ''A'' ''B'' 100) PInf st = Continue st'
           \<and> loop_inv st'"
proof -
  let ?za = "PZ ''ZA'' ''P''"
  from assms obtain f c a where i: "(f, c, ?za) \<in> set (fa_open_set st)"
      "\<forall>x \<in> set (fa_open_set st). x = (f, c, ?za) \<or> heap_lt (f, c, ?za) x"
      "map_of (fa_g_score st) ?za = Some f" "map_of (fa_g_score st) (PC ''A'') = Some a" "f \<le> a"
    unfolding loop_inv_def by blast
  let ?rest = "remove1 (f, c, ?za) (fa_open_set st)"
  from heappop_least[OF i(1,2)] have pop: "heappop (fa_open_set st) = Some ((f, c, ?za), ?rest)" .
  have nbs: "get_forward_neighbors (ex_fa ex_index_loop) ?za (ex_shipment ''A'' ''B'' 100)
     = [(?za, - 1, 10, TransitI (ex_route ''ZA'' ''ZA'' (- 1) 10)), (PC ''A'', 0, 0, ExitI ''P'')]"
    by (simp add: ex_index_loop_def ex_simps index_simps)
  have h: "fa_heuristic_node (ex_fa ex_index_loop) ?za ''B'' = 0"
    "fa_heuristic_node (ex_fa ex_index_loop) (PC ''A'') ''B'' = 0"
    by (simp_all add: ex_index_loop_def ex_simps index_simps fa_heuristic_def state_coords_def)
  define st' where "st' = st\<lparr> fa_open_set := ?rest @ [(f - 1, fa_counter st + 1, ?za),
                                   (f - 1, fa_counter st + 2, PC ''A'')],
      fa_counter := fa_counter st + 2,
      fa_g_score := AList.update (PC ''A'') (f - 1) (AList.update ?za (f - 1) (fa_g_score st)),
      fa_came_from := AList.update (PC ''A'') ?za (AList.update ?za ?za (fa_came_from st)),
      fa_edge_data := AList.update (PC ''A'') \<lparr> fe_cost = 0, fe_etd = 0, fe_info = ExitI ''P'' \<rparr>
         (AList.update ?za \<lparr> fe_cost = - 1, fe_etd = 10,
            fe_info = TransitI (ex_route ''ZA'' ''ZA'' (- 1) 10) \<rparr> (fa_edge_data st)) \<rparr>"
  have d: "destPC (ex_shipment ''A'' ''B'' 100) = ''B''" by (simp add: ex_shipment_def)
  have step: "fa_step (ex_fa ex_index_loop) (ex_shipment ''A'' ''B'' 100) PInf st = Continue st'"
    using i(3,4,5)
    by (simp add: fa_step_def pop nbs fa_relax_def h d Let_def st'_def update_conv'
        heappush_def del: get_forward_neighbors.simps fa_heuristic_node.simps)
  have rest: "\<forall>x \<in> set ?rest. f \<le> fst x"
  proof
    fix x assume "x \<in> set ?rest"
    then have "x \<in> set (fa_open_set st)"
      using set_remove1_subset[of "(f, c, ?za)" "fa_open_set st"] by blast
    with i(2) show "f \<le> fst x" by (auto simp: heap_lt_def)
  qed
  have "loop_inv st'"
    unfolding loop_inv_def
    apply (rule exI[of _ "f - 1"], rule exI[of _ "fa_counter st + 1"], rule exI[of _ "f - 1"])
    using rest by (auto simp: st'_def update_conv' heap_lt_def)
  with step show ?thesis by blast
qed

lemma fa_loop_never_Some:
  assumes major: "fa_loop eng sh mc st = Some y"
  shows "\<not> (eng = ex_fa ex_index_loop \<and> sh = ex_shipment ''A'' ''B'' 100 \<and> mc = PInf \<and> loop_inv st)"
proof (rule fa_loop.raw_induct[where P = "\<lambda>eng sh mc st y.
        \<not> (eng = ex_fa ex_index_loop \<and> sh = ex_shipment ''A'' ''B'' 100 \<and> mc = PInf \<and> loop_inv st)",
      OF _ major])
  fix f :: "FreightAStarEngine \<Rightarrow> Shipment \<Rightarrow> xfloat \<Rightarrow> FaSt \<Rightarrow> (py_error + Node option \<times> FaSt) option"
  fix eng sh mc st y
  assume IH: "\<And>eng sh mc st y. f eng sh mc st = Some y \<Longrightarrow>
      \<not> (eng = ex_fa ex_index_loop \<and> sh = ex_shipment ''A'' ''B'' 100 \<and> mc = PInf \<and> loop_inv st)"
  assume body: "(case fa_step eng sh mc st of
        Done r \<Rightarrow> Some r
      | Continue st' \<Rightarrow> f eng sh mc st') = Some y"
  show "\<not> (eng = ex_fa ex_index_loop \<and> sh = ex_shipment ''A'' ''B'' 100 \<and> mc = PInf \<and> loop_inv st)"
  proof
    assume a: "eng = ex_fa ex_index_loop \<and> sh = ex_shipment ''A'' ''B'' 100 \<and> mc = PInf \<and> loop_inv st"
    with loop_step[of st] obtain st' where s: "fa_step eng sh mc st = Continue st'" "loop_inv st'"
      by auto
    with body have "f eng sh mc st' = Some y" by simp
    from IH[OF this] a s(2) show False by simp
  qed
qed

lemma negative_loop_no_return:
  "fa_find_mltihop_path (ex_fa ex_index_loop) (ex_shipment ''A'' ''B'' 100) PInf PInf 5 10 = None"
proof -
  let ?eng = "ex_fa ex_index_loop" and ?sh = "ex_shipment ''A'' ''B'' 100"
  let ?st1 = "\<lparr> fa_open_set = [(0, 1, PZ ''ZA'' ''P'')], fa_counter = 1,
       fa_g_score = [(PC ''A'', 0), (PZ ''ZA'' ''P'', 0)],
       fa_came_from = [(PZ ''ZA'' ''P'', PC ''A'')],
       fa_edge_data = [(PZ ''ZA'' ''P'', \<lparr> fe_cost = 0, fe_etd = 0, fe_info = EntryI ''P'' \<rparr>)] \<rparr>"
  have s: "fa_step ?eng ?sh PInf (fa_init ?eng ?sh) = Continue ?st1"
    by (simp add: ex_index_loop_def ex_simps index_simps heap_simps fa_step_def fa_init_def
        fa_relax_def fa_heuristic_def state_coords_def Let_def)
  have i: "loop_inv ?st1" by (simp add: loop_inv_def)
  have "fa_loop ?eng ?sh PInf ?st1 = None"
  proof (cases "fa_loop ?eng ?sh PInf ?st1")
    case (Some y)
    from fa_loop_never_Some[OF Some] i show ?thesis by simp
  qed
  then have "fa_loop ?eng ?sh PInf (fa_init ?eng ?sh) = None"
    by (subst fa_loop.simps) (simp add: s)
  then show ?thesis
    by (simp add: fa_find_mltihop_path_def ex_index_loop_def ex_simps index_simps)
qed

section \<open>The unidirectional engine finds only viable paths\<close>

text \<open>
  Every recorded cost of the unidirectional search is the cost of a walk within
  \<open>maxCost\<close>, so when the goal is popped a viable path within \<open>maxCost\<close> exists.
\<close>

definition reach_inv :: "FreightAStarEngine \<Rightarrow> Shipment \<Rightarrow> xfloat \<Rightarrow> FaSt \<Rightarrow> bool" where
  "reach_inv eng sh mc st = (\<forall>(n, v) \<in> set (fa_g_score st). spec_reach eng sh mc PInf n v)"

lemma fa_relax_reach:
  assumes inv: "reach_inv eng sh mc st"
    and nb: "nb \<in> set (get_forward_neighbors eng cur sh)"
    and r: "fa_relax eng sh mc cur nb (Inr st) = Inr st'"
  shows "reach_inv eng sh mc st'"
proof (cases "st' = st")
  case True
  with inv show ?thesis by simp
next
  case False
  obtain n c e info where nbe: "nb = (n, c, e, info)" by (cases nb)
  from r False obtain gc where gc: "map_of (fa_g_score st) cur = Some gc"
    and le: "\<not> mc < Fin (gc + c)"
    and g': "fa_g_score st' = AList.update n (gc + c) (fa_g_score st)"
    by (auto simp: fa_relax_def nbe Let_def split: option.splits if_splits)
  from inv map_of_SomeD[OF gc] have "spec_reach eng sh mc PInf cur gc"
    unfolding reach_inv_def by auto
  from spec_reach.edge[OF this nb[unfolded nbe]] le
  have "spec_reach eng sh mc PInf n (gc + c)" by simp
  with inv show ?thesis
    unfolding reach_inv_def g' by (auto dest!: set_update_cases)
qed

lemma fold_fa_relax_reach:
  "reach_inv eng sh mc st \<Longrightarrow> set nbs \<subseteq> set (get_forward_neighbors eng cur sh)
   \<Longrightarrow> fold (fa_relax eng sh mc cur) nbs (Inr st) = Inr st' \<Longrightarrow> reach_inv eng sh mc st'"
proof (induction nbs arbitrary: st)
  case Nil
  then show ?case by simp
next
  case (Cons nb nbs)
  show ?case
  proof (cases "fa_relax eng sh mc cur nb (Inr st)")
    case (Inl e)
    with Cons.prems(3) show ?thesis by (simp add: fold_fa_relax_Inl)
  next
    case (Inr s1)
    from fa_relax_reach[OF Cons.prems(1) _ Inr] Cons.prems(2)
    have "reach_inv eng sh mc s1" by simp
    from Cons.IH[OF this] Cons.prems(2,3) Inr show ?thesis by simp
  qed
qed

lemma fa_step_reach:
  assumes "reach_inv eng sh mc st" and "fa_step eng sh mc st = Continue st'"
  shows "reach_inv eng sh mc st'"
proof -
  from assms(2) obtain popped rest where p: "heappop (fa_open_set st) = Some (popped, rest)"
    by (auto simp: fa_step_def split: option.splits)
  let ?cur = "snd (snd popped)"
  let ?st1 = "st\<lparr>fa_open_set := rest\<rparr>"
  have i1: "reach_inv eng sh mc ?st1" using assms(1) by (simp add: reach_inv_def)
  from assms(2) p consider "st' = ?st1"
    | "fold (fa_relax eng sh mc ?cur) (get_forward_neighbors eng ?cur sh) (Inr ?st1) = Inr st'"
    by (auto simp: fa_step_def Let_def split: option.splits if_splits sum.splits)
  then show ?thesis
  proof cases
    case 1
    with i1 show ?thesis by simp
  next
    case 2
    from fold_fa_relax_reach[OF i1 _ 2] show ?thesis by simp
  qed
qed

lemma fa_step_done:
  assumes "fa_inv eng sh st" and "reach_inv eng sh mc st"
    and "fa_step eng sh mc st = Done (Inr (Some goal, st'))"
  shows "spec_viable_path eng sh mc PInf"
proof -
  from assms(3) obtain popped rest where p: "heappop (fa_open_set st) = Some (popped, rest)"
    and g: "snd (snd popped) = PC (destPC sh)"
    by (auto simp: fa_step_def Let_def split: option.splits if_splits sum.splits)
  from heappop_SomeD[OF p] have "popped \<in> set (fa_open_set st)" by simp
  with assms(1) obtain v where "map_of (fa_g_score st) (snd (snd popped)) = Some v"
    unfolding fa_inv_def by blast
  from map_of_SomeD[OF this] assms(2) have "spec_reach eng sh mc PInf (PC (destPC sh)) v"
    unfolding reach_inv_def g by auto
  then show ?thesis unfolding spec_viable_path_def by blast
qed

lemma fa_loop_last_step:
  assumes nn: "nonneg_index (fa_index eng) (weightKG sh)"
  shows "fa_inv eng sh st \<Longrightarrow> reach_inv eng sh mc st \<Longrightarrow>
         \<exists>x st' s. fa_loop eng sh mc st = Some (Inr (x, st')) \<and> fa_inv eng sh s
            \<and> reach_inv eng sh mc s \<and> fa_step eng sh mc s = Done (Inr (x, st'))"
proof -
  have wfm: "wf (fa_measure eng sh)" by (simp add: fa_measure_def)
  show "fa_inv eng sh st \<Longrightarrow> reach_inv eng sh mc st \<Longrightarrow>
         \<exists>x st' s. fa_loop eng sh mc st = Some (Inr (x, st')) \<and> fa_inv eng sh s
            \<and> reach_inv eng sh mc s \<and> fa_step eng sh mc s = Done (Inr (x, st'))"
    using wfm
  proof (induction st rule: wf_induct_rule)
    case (less st)
    from fa_step_progress[OF nn less.prems(1), of mc] show ?case
    proof (elim disjE exE conjE)
      fix x st'
      assume d: "fa_step eng sh mc st = Done (Inr (x, st'))"
      then have "fa_loop eng sh mc st = Some (Inr (x, st'))"
        by (subst fa_loop.simps) simp
      with d less.prems show ?thesis by blast
    next
      fix st'
      assume s: "fa_step eng sh mc st = Continue st'" "fa_inv eng sh st'"
        "(st', st) \<in> fa_measure eng sh"
      from fa_step_reach[OF less.prems(2) s(1)] have "reach_inv eng sh mc st'" .
      from less.IH[OF s(3,2) this] s(1) show ?thesis by (subst fa_loop.simps) simp
    qed
  qed
qed

lemma fa_init_reach: "reach_inv eng sh mc (fa_init eng sh)"
  by (simp add: reach_inv_def fa_init_def Let_def spec_reach.start)

lemma fa_loop_found_viable:
  assumes nn: "nonneg_index (fa_index eng) (weightKG sh)"
  shows "\<exists>x st. fa_loop eng sh mc (fa_init eng sh) = Some (Inr (x, st))
           \<and> (x \<noteq> None \<longrightarrow> x = Some (PC (destPC sh)) \<and> spec_viable_path eng sh mc PInf)"
proof -
  from fa_loop_last_step[OF nn fa_init_inv fa_init_reach, of mc]
  obtain x st' s where l: "fa_loop eng sh mc (fa_init eng sh) = Some (Inr (x, st'))"
    "fa_inv eng sh s" "reach_inv eng sh mc s" "fa_step eng sh mc s = Done (Inr (x, st'))"
    by blast
  have "x \<noteq> None \<longrightarrow> x = Some (PC (destPC sh)) \<and> spec_viable_path eng sh mc PInf"
  proof
    assume "x \<noteq> None"
    then obtain goal where x: "x = Some goal" by auto
    from l(4)[unfolded x] have "goal = PC (destPC sh)"
      by (auto simp: fa_step_def Let_def split: option.splits if_splits sum.splits)
    with fa_step_done[OF l(2,3) l(4)[unfolded x]] x
    show "x = Some (PC (destPC sh)) \<and> spec_viable_path eng sh mc PInf" by simp
  qed
  with l(1) show ?thesis by blast
qed

lemma fa_find_mltihop_path_not_viable:
  assumes known: "map_of (fa_postcodes eng) (originPC sh) \<noteq> None"
      "map_of (fa_postcodes eng) (destPC sh) \<noteq> None"
    and nn: "nonneg_index (fa_index eng) (weightKG sh)"
    and nv: "\<not> spec_viable_path eng sh mc PInf"
  shows "fa_find_mltihop_path eng sh mc me h k = Some (Inr [fa_create_default_path eng sh])"
proof -
  from fa_loop_found_viable[OF nn, of mc] nv obtain st where
    "fa_loop eng sh mc (fa_init eng sh) = Some (Inr (None, st))" by auto
  with known show ?thesis by (auto simp: fa_find_mltihop_path_def)
qed

text \<open>
  In the two-postcode example every walk within a cost below 65, or within an edge time
  below 48, stays in the origin postcode and its zone.
\<close>

lemma ex_ab_reach:
  "spec_reach (ex_fa ex_index_ab) (ex_shipment ''A'' ''B'' 100) mc me n c
   \<Longrightarrow> mc < Fin 65 \<or> me < Fin 48 \<Longrightarrow> (n = PC ''A'' \<or> n = PZ ''ZA'' ''P'') \<and> c = 0"
proof (induction rule: spec_reach.induct)
  case start
  then show ?case by (simp add: ex_simps)
next
  case (edge n c m edge_cost edge_etd info)
  from edge.IH[OF edge.prems] have c: "c = 0" and "n = PC ''A'' \<or> n = PZ ''ZA'' ''P''"
    by simp_all
  from this(2) show ?case
  proof
    assume "n = PC ''A''"
    with edge.hyps(2) c show ?thesis by (auto simp: ex_simps index_simps)
  next
    assume "n = PZ ''ZA'' ''P''"
    with edge.hyps(2)
    have "(m = PC ''A'' \<and> edge_cost = 0) \<or> (m = PZ ''ZB'' ''P'' \<and> edge_cost = 65 \<and> edge_etd = 48)"
      by (auto simp: ex_simps index_simps)
    with edge.hyps(3,4) edge.prems c show ?thesis by auto
  qed
qed

lemma ex_ab_not_viable:
  "mc < Fin 65 \<or> me < Fin 48 \<Longrightarrow> \<not> spec_viable_path (ex_fa ex_index_ab) (ex_shipment ''A'' ''B'' 100) mc me"
proof
  assume a: "mc < Fin 65 \<or> me < Fin 48"
    and "spec_viable_path (ex_fa ex_index_ab) (ex_shipment ''A'' ''B'' 100) mc me"
  then obtain c where "spec_reach (ex_fa ex_index_ab) (ex_shipment ''A'' ''B'' 100) mc me (PC ''B'') c"
    by (auto simp: spec_viable_path_def ex_shipment_def)
  from ex_ab_reach[OF this a] show False by simp
qed

section \<open>Scoring and ranking in engine.py\<close>

text \<open>The weighted score of a path, as \<open>optimize_multi_criteria\<close> computes it.\<close>

definition scored :: "MultiHopPath \<Rightarrow> bool" where
  "scored p =
     (\<exists>costScore timeScore.
        inv_score (totalCost p) 1000 = Inr costScore
        \<and> inv_score (totalETD p) 24 = Inr timeScore
        \<and> totScore p = 0.4 * costScore + 0.35 * timeScore + 0.25 * p_reliabilityScore p)"

lemma score_path_scored: "score_path p = Inr p' \<Longrightarrow> scored p'"
  by (auto simp: score_path_def scored_def split: sum.splits)

lemma score_paths_scored:
  "score_paths ps = Inr ps' \<Longrightarrow> length ps' = length ps \<and> (\<forall>p \<in> set ps'. scored p)"
proof (induction ps arbitrary: ps')
  case Nil
  then show ?case by simp
next
  case (Cons p ps)
  from Cons.prems obtain q qs where q: "score_path p = Inr q" "score_paths ps = Inr qs"
    "ps' = q # qs"
    by (auto split: sum.splits)
  from Cons.IH[OF q(2)] score_path_scored[OF q(1)] q(3) show ?case by simp
qed

lemma sort_key_desc_props:
  "set (sort_key_desc f xs) = set xs" "length (sort_key_desc f xs) = length xs"
  "sorted (rev (map f (sort_key_desc f xs)))"
  by (simp_all add: sort_key_desc_def rev_map)

lemma enumerate_ranks:
  "map rank (map (\<lambda>(i, path). path\<lparr> rank := i + 1 \<rparr>) (enumerate n xs))
     = [Suc n..<Suc (n + length xs)]"
proof -
  have "map rank (map (\<lambda>(i, path). path\<lparr> rank := i + 1 \<rparr>) (enumerate n xs))
          = map (\<lambda>x. Suc (fst x)) (enumerate n xs)"
    by (simp add: case_prod_beta comp_def)
  also have "\<dots> = map Suc (map fst (enumerate n xs))"
    by (simp only: map_map comp_def)
  also have "\<dots> = map Suc [n..<n + length xs]"
    by (simp only: map_fst_enumerate)
  also have "\<dots> = [Suc n..<Suc (n + length xs)]"
    by (simp only: map_Suc_upt)
  finally show ?thesis .
qed

lemma assign_ranks_rank: "map rank (assign_ranks xs) = [1..<Suc (length xs)]"
  using enumerate_ranks[of 0 xs] by (simp add: assign_ranks_def)

lemma enumerate_totScore:
  "map totScore (map (\<lambda>(i, path). path\<lparr> rank := i + 1 \<rparr>) (enumerate n xs)) = map totScore xs"
  by (induction xs arbitrary: n) simp_all

lemma enumerate_scored:
  "\<forall>p \<in> set xs. scored p \<Longrightarrow>
   \<forall>p \<in> set (map (\<lambda>(i, path). path\<lparr> rank := i + 1 \<rparr>) (enumerate n xs)). scored p"
  by (induction xs arbitrary: n) (auto simp: scored_def)

text \<open>
  What \<open>optimize_multi_criteria\<close> of engine.py returns: at most 15 paths, each with
  its weighted score, in descending order of the score, ranked 1, 2, and so on.
\<close>

lemma optimize_multi_criteria_ranked:
  assumes "optimize_multi_criteria eng sh = Some (Inr ps)"
  shows "map rank ps = [1..<Suc (length ps)] \<and> sorted (rev (map totScore ps))
         \<and> (\<forall>p \<in> set ps. scored p) \<and> length ps \<le> 15"
proof -
  from assms obtain paths sc where
    f: "find_mltihop_path eng sh PInf PInf 5 15 = Some (Inr paths)"
    and s: "score_paths paths = Inr sc"
    and ps: "ps = assign_ranks (sort_key_desc totScore sc)"
    by (auto simp: optimize_multi_criteria_def split: option.splits sum.splits)
  let ?srt = "sort_key_desc totScore sc"
  from score_paths_scored[OF s] have len: "length sc = length paths"
    and sco: "\<forall>p \<in> set sc. scored p" by simp_all
  have l15: "length paths \<le> 15" using find_mltihop_path_sorted[OF f] by simp
  have a: "map rank ps = [1..<Suc (length ps)]"
    unfolding ps using assign_ranks_rank[of ?srt] by (simp add: assign_ranks_def)
  have b: "sorted (rev (map totScore ps))"
    unfolding ps assign_ranks_def enumerate_totScore by (rule sort_key_desc_props)
  have c: "\<forall>p \<in> set ps. scored p"
    unfolding ps assign_ranks_def
    by (rule enumerate_scored) (simp add: sort_key_desc_props sco)
  have d: "length ps \<le> 15"
    using l15 len by (simp add: ps assign_ranks_def sort_key_desc_props)
  from a b c d show ?thesis by blast
qed

subsection \<open>No division by zero\<close>

text \<open>No route of the index has negative delivery hours.\<close>

definition nonneg_hours :: "GraphIndex \<Rightarrow> bool" where
  "nonneg_hours idx =
     list_all (\<lambda>(k, rs). list_all (\<lambda>r. 0 \<le> deliveryHrs r) rs) (zoneAdj idx @ revZoneAdj idx)"

lemma neighbors_hours:
  assumes "nonneg_hours (index eng)"
    and "(n, c, e, ri) \<in> set (get_neighbors eng cur sh h fwd)"
  shows "0 \<le> e"
proof (cases cur)
  case (PC x)
  with assms(2) show ?thesis by auto
next
  case (PZ z p)
  from assms(2) consider r where "r \<in> set (get_OutgoingRoutes (index eng) p z)" "e = deliveryHrs r"
    | r where "r \<in> set (get_IncomingRoutes (index eng) p z)" "e = deliveryHrs r"
    | "e = 0"
    unfolding PZ by (auto split: if_splits)
  then show ?thesis
  proof cases
    case 1
    from 1(1) obtain rs where "((p, z), rs) \<in> set (zoneAdj (index eng))" "r \<in> set rs"
      unfolding get_OutgoingRoutes_def by (auto dest!: dict_get_in)
    with assms(1) 1(2) show ?thesis by (fastforce simp: nonneg_hours_def list_all_iff)
  next
    case 2
    from 2(1) obtain rs where "((p, z), rs) \<in> set (revZoneAdj (index eng))" "r \<in> set rs"
      unfolding get_IncomingRoutes_def by (auto dest!: dict_get_in)
    with assms(1) 2(2) show ?thesis by (fastforce simp: nonneg_hours_def list_all_iff)
  next
    case 3
    then show ?thesis by simp
  qed
qed

definition hours_ok :: "SearchSt \<Rightarrow> bool" where
  "hours_ok st = (\<forall>(n, e) \<in> set (edge_data st). 0 \<le> e_etd e)"

lemma relax_hours_ok:
  assumes "nonneg_hours (index eng)" "hours_ok st" "nb \<in> set (get_neighbors eng cur sh h fwd)"
  shows "hours_ok (relax eng goal mc me cur cg nb st)"
proof -
  obtain n c e ri where nb: "nb = (n, c, e, ri)" by (cases nb)
  from neighbors_hours[OF assms(1) assms(3)[unfolded nb]] have "0 \<le> e" .
  then show ?thesis
    using assms(2)
    by (auto simp: relax_def nb Let_def hours_ok_def split: option.splits
        dest!: set_update_cases)
qed

lemma astar_step_hours_ok:
  assumes "nonneg_hours (index eng)" "hours_ok st"
    "astar_step eng sh goal fwd mc me h st = Continue st'"
  shows "hours_ok st'"
  using assms(3)
proof (cases rule: astar_step_cases)
  case (1 popped rest)
  with assms(2) show ?thesis by (simp add: hours_ok_def)
next
  case (2 popped rest cg)
  with assms(2) show ?thesis by (simp add: hours_ok_def)
next
  case (3 popped rest cg)
  have "hours_ok (st\<lparr>open_set := rest, visited := insert (snd (snd popped)) (visited st)\<rparr>)"
    using assms(2) by (simp add: hours_ok_def)
  then show ?thesis
    unfolding 3(5) by (rule fold_relax_invariant) (rule relax_hours_ok[OF assms(1)])
qed

lemma astar_search_hours:
  assumes "nonneg_hours (index eng)" "astar_search eng sh start goal fwd mc me h = Inr res"
  shows "\<forall>(n, e) \<in> set (res_edge res). 0 \<le> e_etd e"
proof -
  let ?init = "\<lparr> open_set = heappush [] (heuristic eng start goal, 0, PC start), counter = 1,
                  g_score = [(PC start, 0)], f_score = [(PC start, heuristic eng start goal)],
                  came_from = [], edge_data = [], visited = {} \<rparr>"
  from assms(2) obtain st where loop: "astar_loop eng sh goal fwd mc me h ?init = Inr st"
    and res: "res_edge res = edge_data st"
    by (auto simp: astar_search_def Let_def split: sum.splits)
  have "hours_ok st"
    using loop
  proof (rule astar_loop_invariant)
    show "hours_ok ?init" by (simp add: hours_ok_def)
  next
    fix s s'
    assume "hours_ok s" "astar_step eng sh goal fwd mc me h s = Continue s'"
    then show "hours_ok s'" by (rule astar_step_hours_ok[OF assms(1)])
  qed
  then show ?thesis by (simp add: hours_ok_def res)
qed

lemma unroll_loop_hours:
  assumes major: "unroll_loop cf ed cur ns segs tc te = Some y"
  shows "(\<forall>(n, e) \<in> set ed. 0 \<le> e_etd e) \<longrightarrow> 0 \<le> te
           \<longrightarrow> (\<forall>ns' segs' tc' te'. y = Inr (ns', segs', tc', te') \<longrightarrow> 0 \<le> te')"
proof (rule unroll_loop.raw_induct[where P = "\<lambda>cf ed cur ns segs tc te y.
      (\<forall>(n, e) \<in> set ed. 0 \<le> e_etd e) \<longrightarrow> 0 \<le> te
           \<longrightarrow> (\<forall>ns' segs' tc' te'. y = Inr (ns', segs', tc', te') \<longrightarrow> 0 \<le> te')", OF _ major])
  fix f :: "(Node, Node) dict \<Rightarrow> (Node, edge) dict \<Rightarrow> Node \<Rightarrow> Node list \<Rightarrow> segment list \<Rightarrow> real
     \<Rightarrow> real \<Rightarrow> (py_error + Node list \<times> segment list \<times> real \<times> real) option"
  fix cf ed cur ns segs tc te y
  assume IH: "\<And>cf ed cur ns segs tc te y.
      f cf ed cur ns segs tc te = Some y \<Longrightarrow>
      (\<forall>(n, e) \<in> set ed. 0 \<le> e_etd e) \<longrightarrow> 0 \<le> te
           \<longrightarrow> (\<forall>ns' segs' tc' te'. y = Inr (ns', segs', tc', te') \<longrightarrow> 0 \<le> te')"
  assume body: "(case map_of ed cur of
        None \<Rightarrow>
          (case map_of cf cur of
             None \<Rightarrow> Some (Inr (ns @ [cur], segs, tc, te))
           | Some par \<Rightarrow> f cf ed par (ns @ [cur]) segs tc te)
      | Some data \<Rightarrow>
          (case map_of cf cur of
             None \<Rightarrow> Some (Inl KeyError)
           | Some par \<Rightarrow>
               f cf ed par (ns @ [cur]) (segs @ [mk_segment par cur data])
                 (tc + e_cost data) (te + e_etd data))) = Some y"
  show "(\<forall>(n, e) \<in> set ed. 0 \<le> e_etd e) \<longrightarrow> 0 \<le> te
           \<longrightarrow> (\<forall>ns' segs' tc' te'. y = Inr (ns', segs', tc', te') \<longrightarrow> 0 \<le> te')"
  proof (intro impI)
    assume H: "\<forall>(n, e) \<in> set ed. 0 \<le> e_etd e" and te: "0 \<le> te"
    show "\<forall>ns' segs' tc' te'. y = Inr (ns', segs', tc', te') \<longrightarrow> 0 \<le> te'"
    proof (cases "map_of ed cur")
      case None
      show ?thesis
      proof (cases "map_of cf cur")
        case n2: None
        with None body te show ?thesis by auto
      next
        case (Some par)
        with None body have "f cf ed par (ns @ [cur]) segs tc te = Some y" by simp
        from IH[OF this] H te show ?thesis by blast
      qed
    next
      case (Some data)
      then have "(cur, data) \<in> set ed" by (rule map_of_SomeD)
      with H te have te': "0 \<le> te + e_etd data" by auto
      show ?thesis
      proof (cases "map_of cf cur")
        case None
        with Some body show ?thesis by auto
      next
        case p: (Some par)
        with Some body have "f cf ed par (ns @ [cur]) (segs @ [mk_segment par cur data])
                 (tc + e_cost data) (te + e_etd data) = Some y" by simp
        from IH[OF this] H te' show ?thesis by blast
      qed
    qed
  qed
qed

text \<open>A path whose totals do not make a divisor of the score zero.\<close>

definition scorable :: "MultiHopPath \<Rightarrow> bool" where
  "scorable p =
     ((case totalCost p of Fin c \<Rightarrow> 0 \<le> c | PInf \<Rightarrow> True)
      \<and> (case totalETD p of Fin t \<Rightarrow> 0 \<le> t | PInf \<Rightarrow> True))"

lemma merge_loop_scorable:
  assumes hf: "\<forall>(n, e) \<in> set (res_edge fwd). 0 \<le> e_etd e"
    and hb: "\<forall>(n, e) \<in> set (res_edge bwd). 0 \<le> e_etd e"
    and rf: "result_inv fwd" and rb: "result_inv bwd"
  shows "merge_loop sh fwd bwd ms ps = Some (Inr ps') \<Longrightarrow> \<forall>p \<in> set ps. scorable p
           \<Longrightarrow> \<forall>p \<in> set ps'. scorable p"
proof (induction ms arbitrary: ps)
  case Nil
  then show ?case by simp
next
  case (Cons m ms)
  show ?case
  proof (cases m)
    case (PZ z p)
    with Cons show ?thesis by simp
  next
    case (PC c)
    from unroll_path_returns[OF rf, of "PC c"] obtain fns fsegs ftc fte where
      f: "unroll_path (PC c) (res_parent fwd) (res_edge fwd) = Some (Inr (fns, fsegs, ftc, fte))"
        "0 \<le> ftc" by blast
    from unroll_path_returns[OF rb, of "PC c"] obtain bns bsegs btc bte where
      b: "unroll_path (PC c) (res_parent bwd) (res_edge bwd) = Some (Inr (bns, bsegs, btc, bte))"
        "0 \<le> btc" by blast
    from unroll_loop_hours[OF f(1)[unfolded unroll_path_def]] hf have fte: "0 \<le> fte" by simp
    from unroll_loop_hours[OF b(1)[unfolded unroll_path_def]] hb have bte: "0 \<le> bte" by simp
    let ?p = "mk_path sh (rev fns @ tl bns) (rev fsegs @ bsegs) (ftc + btc) (fte + bte)"
    have "scorable ?p" using f(2) b(2) fte bte by (simp add: scorable_def mk_path_def)
    with Cons.prems(2) have all: "\<forall>p \<in> set (ps @ [?p]). scorable p" by simp
    from Cons.prems(1) have "merge_loop sh fwd bwd ms (ps @ [?p]) = Some (Inr ps')"
      by (simp add: PC f b)
    from Cons.IH[OF this all] show ?thesis .
  qed
qed

lemma scorable_score_path: "scorable p \<Longrightarrow> \<exists>p'. score_path p = Inr p'"
proof -
  assume s: "scorable p"
  have c: "\<exists>v. inv_score (totalCost p) 1000 = Inr v"
  proof (cases "totalCost p")
    case (Fin c)
    with s have "0 \<le> c" by (simp add: scorable_def)
    then have "1 + c / 1000 \<noteq> 0" by (simp add: add_nonneg_eq_0_iff)
    with Fin show ?thesis by (simp add: inv_score_def)
  next
    case PInf
    then show ?thesis by (simp add: inv_score_def)
  qed
  have t: "\<exists>v. inv_score (totalETD p) 24 = Inr v"
  proof (cases "totalETD p")
    case (Fin t)
    with s have "0 \<le> t" by (simp add: scorable_def)
    then have "1 + t / 24 \<noteq> 0" by (simp add: add_nonneg_eq_0_iff)
    with Fin show ?thesis by (simp add: inv_score_def)
  next
    case PInf
    then show ?thesis by (simp add: inv_score_def)
  qed
  from c t show ?thesis by (auto simp: score_path_def)
qed

lemma scorable_score_paths: "\<forall>p \<in> set ps. scorable p \<Longrightarrow> \<exists>ps'. score_paths ps = Inr ps'"
proof (induction ps)
  case Nil
  show ?case by simp
next
  case (Cons p ps)
  from Cons.prems scorable_score_path[of p] obtain p' where "score_path p = Inr p'" by auto
  moreover from Cons obtain ps' where "score_paths ps = Inr ps'" by auto
  ultimately show ?case by simp
qed

lemma set_py_take: "set (py_take k xs) \<subseteq> set xs"
  by (auto simp: py_take_def dest: in_set_takeD)

text \<open>
  \<open>optimize_multi_criteria\<close> of engine.py returns a list when both postcodes are known
  and no route has a negative cost or negative delivery hours: no divisor of a score is
  zero then.
\<close>

lemma optimize_multi_criteria_returns:
  assumes known: "map_of (eng_postcodes eng) (originPC sh) \<noteq> None"
      "map_of (eng_postcodes eng) (destPC sh) \<noteq> None"
    and nn: "nonneg_index (index eng) (weightKG sh)" and nh: "nonneg_hours (index eng)"
  shows "\<exists>ps. optimize_multi_criteria eng sh = Some (Inr ps)"
proof -
  from astar_search_returns[OF nn, of "originPC sh" "destPC sh" True PInf PInf 5]
  obtain fwd where f: "astar_search eng sh (originPC sh) (destPC sh) True PInf PInf 5 = Inr fwd"
    "result_inv fwd" by blast
  from astar_search_returns[OF nn, of "destPC sh" "originPC sh" False PInf PInf 5]
  obtain bwd where b: "astar_search eng sh (destPC sh) (originPC sh) False PInf PInf 5 = Inr bwd"
    "result_inv bwd" by blast
  note hf = astar_search_hours[OF nh f(1)] and hb = astar_search_hours[OF nh b(1)]
  from merge_loop_returns[OF f(2) b(2), of sh "common_nodes eng fwd bwd" "[]"]
  obtain ml where ml: "merge_loop sh fwd bwd (common_nodes eng fwd bwd) [] = Some (Inr ml)"
    by blast
  from merge_loop_scorable[OF hf hb f(2) b(2) ml] have sc: "\<forall>p \<in> set ml. scorable p" by simp
  define all_paths where "all_paths = (if ml = [] then [create_default_path eng sh] else ml)"
  have m: "merge_paths eng sh fwd bwd = Some (Inr all_paths)"
    using ml by (simp add: merge_paths_def all_paths_def)
  have sa: "\<forall>p \<in> set all_paths. scorable p"
    using sc by (simp add: all_paths_def scorable_def create_default_path_def)
  have fm: "find_mltihop_path eng sh PInf PInf 5 15
              = Some (Inr (py_take 15 (sort_key totalCost all_paths)))"
    using known f(1) b(1) m by (simp add: find_mltihop_path_def)
  have "\<forall>p \<in> set (py_take 15 (sort_key totalCost all_paths)). scorable p"
    using sa set_py_take[of 15 "sort_key totalCost all_paths"] by auto
  from scorable_score_paths[OF this] obtain sp where
    "score_paths (py_take 15 (sort_key totalCost all_paths)) = Inr sp" by blast
  with fm show ?thesis by (simp add: optimize_multi_criteria_def)
qed

section \<open>Route cost\<close>

text \<open>
  Claim C1, as stated: the levy is added to the minimum charge also when the weight is
  not positive. The code returns the bare minimum charge there: at weight 0, minimum
  charge 2 and a levy of 10 percent it returns 2, where the rule as worded gives 2.2.
\<close>

theorem calculateCost_levy_counterexample:
  "calculateCost ex_levy_route 0 = 2 \<and> spec_cost ex_levy_route 0 = 2.2"
  by (simp add: calculateCost_def spec_cost_def ex_levy_route_def)

text \<open>
  Claim C1, amended: for a positive weight the cost is the maximum of
  \<open>baseCharge + weightKG * perKGRate\<close> and \<open>minCharge\<close>, increased by the fuel levy
  percentage of itself; for a weight that is not positive it is \<open>minCharge\<close> with no
  levy added. For \<open>baseCharge = 15\<close>, \<open>perKGRate = 0.5\<close>, \<open>minCharge = 2\<close> and weight
  100 the cost is 65 plus the levy on 65.
\<close>

theorem calculateCost_formula:
  "(0 < w \<longrightarrow>
      calculateCost r w
        = max (baseCharge r + w * perKGRate r) (minCharge r)
          + max (baseCharge r + w * perKGRate r) (minCharge r) * (fuelLevyPct r / 100))
   \<and> (\<not> 0 < w \<longrightarrow> calculateCost r w = minCharge r)
   \<and> (baseCharge r = 15 \<and> perKGRate r = 0.5 \<and> minCharge r = 2 \<longrightarrow>
        calculateCost r 100 = 65 + 65 * (fuelLevyPct r / 100))"
proof (intro conjI impI)
  assume "0 < w"
  then show "calculateCost r w
        = max (baseCharge r + w * perKGRate r) (minCharge r)
          + max (baseCharge r + w * perKGRate r) (minCharge r) * (fuelLevyPct r / 100)"
    by (simp add: calculateCost_def Let_def)
next
  assume "\<not> 0 < w"
  then show "calculateCost r w = minCharge r"
    by (simp add: calculateCost_def)
next
  assume "baseCharge r = 15 \<and> perKGRate r = 0.5 \<and> minCharge r = 2"
  then have a: "baseCharge r = 15" "perKGRate r = 0.5" "minCharge r = 2"
    by simp_all
  show "calculateCost r 100 = 65 + 65 * (fuelLevyPct r / 100)"
    unfolding calculateCost_def Let_def a by simp
qed

theorem calculateCost_formula_witness:
  "calculateCost ex_levy_route 100 = 71.5 \<and> calculateCost ex_levy_route (-1) = 2"
  using calculateCost_formula[of 100 ex_levy_route] calculateCost_formula[of "-1" ex_levy_route]
  by (simp add: ex_levy_route_def)

section \<open>Unknown locations\<close>

text \<open>
  Claim C2, as stated: every entry point of the optimizer fails when a postcode is
  unknown. \<open>unoptimized\<close> makes no check: for the unknown origin \<open>Q\<close> it returns the
  fallback path.
\<close>

theorem unoptimized_unknown_counterexample:
  "map_of (eng_postcodes (ex_bi ex_index_ab)) (originPC (ex_shipment ''Q'' ''B'' 100)) = None
   \<and> unoptimized (ex_bi ex_index_ab) (ex_shipment ''Q'' ''B'' 100)
       = \<lparr> shipmentId = ''s1'', nodes = [PC ''Q'', PC ''B''], segments = [],
           totalCost = PInf, totalETD = PInf, providersInvolved = {}, numHops = 0,
           p_reliabilityScore = 1, totScore = 0, rank = 0 \<rparr>"
  by (simp add: ex_simps index_simps unoptimized_def create_default_path_def)

text \<open>
  Claim C2, amended: when the origin or the destination postcode is absent from the
  engine's postcode table, \<open>find_mltihop_path\<close>, \<open>optimized_for_cost\<close>,
  \<open>optimized_for_time\<close> and \<open>optimize_multi_criteria\<close> fail with the unknown-location
  error, in both engines. The outcome is this error for every index and every threshold,
  also for those on which the search would raise or would not return: the check is the
  first thing the call does and nothing of the search is evaluated. \<open>unoptimized\<close>
  checks nothing and returns the fallback path for every shipment.
\<close>

theorem unknown_location_fails:
  "(map_of (eng_postcodes eng) (originPC sh) = None \<or> map_of (eng_postcodes eng) (destPC sh) = None
      \<longrightarrow> find_mltihop_path eng sh mc me h k = Some (Inl UnknownLocation)
        \<and> optimized_for_cost eng sh me = Some (Inl UnknownLocation)
        \<and> optimized_for_time eng sh mc = Some (Inl UnknownLocation)
        \<and> optimize_multi_criteria eng sh = Some (Inl UnknownLocation))
   \<and> (map_of (fa_postcodes feng) (originPC sh) = None \<or> map_of (fa_postcodes feng) (destPC sh) = None
      \<longrightarrow> fa_find_mltihop_path feng sh mc me h k = Some (Inl UnknownLocation)
        \<and> fa_optimized_for_cost feng sh me = Some (Inl UnknownLocation)
        \<and> fa_optimized_for_time feng sh mc = Some (Inl UnknownLocation)
        \<and> fa_optimize_multi_criteria feng sh = Some (Inl UnknownLocation))
   \<and> unoptimized eng sh = create_default_path eng sh
   \<and> fa_unoptimized feng sh = fa_create_default_path feng sh"
  by (auto simp: find_mltihop_path_def optimized_for_cost_def optimized_for_time_def
      optimize_multi_criteria_def fa_find_mltihop_path_def fa_optimized_for_cost_def
      fa_optimized_for_time_def fa_optimize_multi_criteria_def unoptimized_def fa_unoptimized_def)

theorem unknown_location_fails_witness:
  "find_mltihop_path (ex_bi ex_index_ab) (ex_shipment ''Q'' ''B'' 100) PInf (Fin 24) 5 10
     = Some (Inl UnknownLocation)
   \<and> optimize_multi_criteria (ex_bi ex_index_ab) (ex_shipment ''A'' ''Q'' 100)
     = Some (Inl UnknownLocation)
   \<and> fa_optimized_for_cost (ex_fa ex_index_ab) (ex_shipment ''Q'' ''B'' 100) (Fin 24)
     = Some (Inl UnknownLocation)"
  using unknown_location_fails[where eng = "ex_bi ex_index_ab"
      and sh = "ex_shipment ''Q'' ''B'' 100" and mc = PInf and me = "Fin 24" and h = 5
      and k = 10 and feng = "ex_fa ex_index_ab"]
    unknown_location_fails[where eng = "ex_bi ex_index_ab"
      and sh = "ex_shipment ''A'' ''Q'' 100" and mc = PInf and me = PInf and h = 5
      and k = 10 and feng = "ex_fa ex_index_ab"]
  by (simp add: ex_simps index_simps)

section \<open>The result list is never empty\<close>

text \<open>
  Claim C3, as stated: with known postcodes \<open>find_mltihop_path\<close> always returns a
  non-empty list, which is the fallback path when no viable path exists within the
  thresholds. The bidirectional engine slices the sorted candidates to \<open>topK\<close>, so with
  \<open>topK = 0\<close> it returns the empty list; over a route cycle of negative cost it does not
  return at all, and neither does the unidirectional engine over a route of negative cost
  from a zone to itself. And in the two-postcode example, whose only route takes 48 hours, no
  viable path exists within \<open>maxETD = 24\<close>, yet the unidirectional engine does not
  return the fallback path: it never compares an edge time with \<open>maxETD\<close>.
\<close>

theorem find_mltihop_path_empty_counterexample:
  "find_mltihop_path (ex_bi ex_index_ab) (ex_shipment ''A'' ''B'' 100) PInf PInf 5 0
     = Some (Inr [])
   \<and> find_mltihop_path (ex_bi ex_index_neg) (ex_shipment ''A'' ''B'' 100) PInf PInf 5 10
     = None
   \<and> fa_find_mltihop_path (ex_fa ex_index_loop) (ex_shipment ''A'' ''B'' 100) PInf PInf 5 10
     = None
   \<and> \<not> spec_viable_path (ex_fa ex_index_ab) (ex_shipment ''A'' ''B'' 100) PInf (Fin 24)
   \<and> fa_find_mltihop_path (ex_fa ex_index_ab) (ex_shipment ''A'' ''B'' 100) PInf (Fin 24) 5 10
     \<noteq> Some (Inr [fa_create_default_path (ex_fa ex_index_ab)
                       (ex_shipment ''A'' ''B'' 100)])"
proof (intro conjI)
  show "find_mltihop_path (ex_bi ex_index_ab) (ex_shipment ''A'' ''B'' 100) PInf PInf 5 0
     = Some (Inr [])"
    by (simp add: ex_simps index_simps heap_simps bi_simps)
  show "find_mltihop_path (ex_bi ex_index_neg) (ex_shipment ''A'' ''B'' 100) PInf PInf 5 10
     = None"
    by (rule negative_cycle_no_return)
  show "fa_find_mltihop_path (ex_fa ex_index_loop) (ex_shipment ''A'' ''B'' 100) PInf PInf 5 10
     = None"
    by (rule negative_loop_no_return)
  show "\<not> spec_viable_path (ex_fa ex_index_ab) (ex_shipment ''A'' ''B'' 100) PInf (Fin 24)"
    by (rule ex_ab_not_viable) simp
  show "fa_find_mltihop_path (ex_fa ex_index_ab) (ex_shipment ''A'' ''B'' 100) PInf (Fin 24) 5 10
     \<noteq> Some (Inr [fa_create_default_path (ex_fa ex_index_ab)
                       (ex_shipment ''A'' ''B'' 100)])"
    by (simp add: ex_simps index_simps heap_simps fa_simps)
qed

text \<open>
  Claim C3, amended: let both postcodes be known and let no route of the index have a
  negative cost at the shipment's weight. Then \<open>find_mltihop_path\<close> of either engine
  returns a list, and no error is raised. The list of the bidirectional engine is not
  empty when \<open>topK\<close> is at least 1, and then it is exactly the fallback path when no
  postcode vertex has a recorded cost in both the forward and the backward search. The
  list of the unidirectional engine is not empty, and it is exactly the fallback path
  when no viable path exists within \<open>maxCost\<close>, whatever the edge times are; nothing is
  said about a path that is within \<open>maxCost\<close> and not within \<open>maxETD\<close>. The fallback
  path has total cost and total time \<open>+infinity\<close> and no segments.
\<close>

theorem find_mltihop_path_nonempty:
  "(map_of (eng_postcodes eng) (originPC sh) \<noteq> None
      \<and> map_of (eng_postcodes eng) (destPC sh) \<noteq> None
      \<and> nonneg_index (index eng) (weightKG sh)
    \<longrightarrow> (\<exists>fwd bwd ps.
           astar_search eng sh (originPC sh) (destPC sh) True mc me h = Inr fwd
           \<and> astar_search eng sh (destPC sh) (originPC sh) False mc me h = Inr bwd
           \<and> find_mltihop_path eng sh mc me h k = Some (Inr ps)
           \<and> (1 \<le> k \<longrightarrow> ps \<noteq> []
                \<and> ((\<forall>c. map_of (res_cost fwd) (PC c) = None
                          \<or> map_of (res_cost bwd) (PC c) = None)
                     \<longrightarrow> ps = [create_default_path eng sh]))))
   \<and> (map_of (fa_postcodes feng) (originPC sh) \<noteq> None
      \<and> map_of (fa_postcodes feng) (destPC sh) \<noteq> None
      \<and> nonneg_index (fa_index feng) (weightKG sh)
    \<longrightarrow> (\<exists>ps.
           fa_find_mltihop_path feng sh mc me h k = Some (Inr ps) \<and> ps \<noteq> []
           \<and> (\<not> spec_viable_path feng sh mc PInf
                 \<longrightarrow> ps = [fa_create_default_path feng sh])))
   \<and> totalCost (create_default_path eng sh) = PInf
   \<and> totalETD (create_default_path eng sh) = PInf
   \<and> segments (create_default_path eng sh) = []
   \<and> totalCost (fa_create_default_path feng sh) = PInf
   \<and> totalETD (fa_create_default_path feng sh) = PInf
   \<and> segments (fa_create_default_path feng sh) = []"
proof (intro conjI impI)
  assume a: "map_of (eng_postcodes eng) (originPC sh) \<noteq> None
      \<and> map_of (eng_postcodes eng) (destPC sh) \<noteq> None
      \<and> nonneg_index (index eng) (weightKG sh)"
  then have known: "map_of (eng_postcodes eng) (originPC sh) \<noteq> None"
    "map_of (eng_postcodes eng) (destPC sh) \<noteq> None"
    and nn: "nonneg_index (index eng) (weightKG sh)" by simp_all
  from find_mltihop_path_returns[OF known nn, of mc me h k]
  obtain fwd bwd all_paths where r:
      "astar_search eng sh (originPC sh) (destPC sh) True mc me h = Inr fwd"
      "astar_search eng sh (destPC sh) (originPC sh) False mc me h = Inr bwd"
      "find_mltihop_path eng sh mc me h k = Some (Inr (py_take k (sort_key totalCost all_paths)))"
      "all_paths \<noteq> []"
      "(\<forall>c. map_of (res_cost fwd) (PC c) = None \<or> map_of (res_cost bwd) (PC c) = None)
            \<longrightarrow> all_paths = [create_default_path eng sh]"
    by (elim exE conjE)
  let ?ps = "py_take k (sort_key totalCost all_paths)"
  have ne: "1 \<le> k \<Longrightarrow> ?ps \<noteq> []"
    using py_take_nonempty[of k "sort_key totalCost all_paths"] r(4)
    by (metis length_0_conv length_sort)
  have dflt: "1 \<le> k \<Longrightarrow>
       (\<forall>c. map_of (res_cost fwd) (PC c) = None \<or> map_of (res_cost bwd) (PC c) = None)
         \<longrightarrow> ?ps = [create_default_path eng sh]"
    using r(5) py_take_single[of k] by auto
  from r(1,2,3) ne dflt have main:
    "astar_search eng sh (originPC sh) (destPC sh) True mc me h = Inr fwd
           \<and> astar_search eng sh (destPC sh) (originPC sh) False mc me h = Inr bwd
           \<and> find_mltihop_path eng sh mc me h k = Some (Inr ?ps)
           \<and> (1 \<le> k \<longrightarrow> ?ps \<noteq> []
                \<and> ((\<forall>c. map_of (res_cost fwd) (PC c) = None
                          \<or> map_of (res_cost bwd) (PC c) = None)
                     \<longrightarrow> ?ps = [create_default_path eng sh]))"
    by blast
  show "\<exists>fwd bwd ps.
           astar_search eng sh (originPC sh) (destPC sh) True mc me h = Inr fwd
           \<and> astar_search eng sh (destPC sh) (originPC sh) False mc me h = Inr bwd
           \<and> find_mltihop_path eng sh mc me h k = Some (Inr ps)
           \<and> (1 \<le> k \<longrightarrow> ps \<noteq> []
                \<and> ((\<forall>c. map_of (res_cost fwd) (PC c) = None
                          \<or> map_of (res_cost bwd) (PC c) = None)
                     \<longrightarrow> ps = [create_default_path eng sh]))"
    by (rule exI[of _ fwd], rule exI[of _ bwd], rule exI[of _ ?ps]) (rule main)
next
  assume a: "map_of (fa_postcodes feng) (originPC sh) \<noteq> None
      \<and> map_of (fa_postcodes feng) (destPC sh) \<noteq> None
      \<and> nonneg_index (fa_index feng) (weightKG sh)"
  then have known: "map_of (fa_postcodes feng) (originPC sh) \<noteq> None"
    "map_of (fa_postcodes feng) (destPC sh) \<noteq> None"
    and nn: "nonneg_index (fa_index feng) (weightKG sh)" by simp_all
  from fa_find_mltihop_path_returns[OF known nn, of mc me h k]
  obtain p where p: "fa_find_mltihop_path feng sh mc me h k = Some (Inr [p])"
    by (metis option.exhaust)
  from fa_find_mltihop_path_not_viable[OF known nn, of mc me h k] p
  have "\<not> spec_viable_path feng sh mc PInf \<longrightarrow> [p] = [fa_create_default_path feng sh]"
    by simp
  with p have "fa_find_mltihop_path feng sh mc me h k = Some (Inr [p]) \<and> [p] \<noteq> []
           \<and> (\<not> spec_viable_path feng sh mc PInf
                 \<longrightarrow> [p] = [fa_create_default_path feng sh])"
    by simp
  then show "\<exists>ps.
           fa_find_mltihop_path feng sh mc me h k = Some (Inr ps) \<and> ps \<noteq> []
           \<and> (\<not> spec_viable_path feng sh mc PInf
                 \<longrightarrow> ps = [fa_create_default_path feng sh])"
    by (rule exI[of _ "[p]"])
qed (simp_all add: create_default_path_def fa_create_default_path_def)

theorem find_mltihop_path_nonempty_witness:
  "nonneg_index ex_index_ab 100
   \<and> astar_search (ex_bi ex_index_ab) (ex_shipment ''A'' ''B'' 100) ''A'' ''B'' True
         PInf (Fin 24) 5
       = Inr \<lparr> res_parent = [(PZ ''ZA'' ''P'', PC ''A'')],
               res_cost = [(PC ''A'', 0), (PZ ''ZA'' ''P'', 0)],
               res_edge = [(PZ ''ZA'' ''P'', \<lparr> e_cost = 0, e_etd = 0, e_route = Entry \<rparr>)] \<rparr>
   \<and> astar_search (ex_bi ex_index_ab) (ex_shipment ''A'' ''B'' 100) ''B'' ''A'' False
         PInf (Fin 24) 5
       = Inr \<lparr> res_parent = [(PZ ''ZB'' ''P'', PC ''B'')],
               res_cost = [(PC ''B'', 0), (PZ ''ZB'' ''P'', 0)],
               res_edge = [(PZ ''ZB'' ''P'', \<lparr> e_cost = 0, e_etd = 0, e_route = Exit \<rparr>)] \<rparr>
   \<and> find_mltihop_path (ex_bi ex_index_ab) (ex_shipment ''A'' ''B'' 100) PInf (Fin 24) 5 10
       = Some (Inr [create_default_path (ex_bi ex_index_ab) (ex_shipment ''A'' ''B'' 100)])
   \<and> \<not> spec_viable_path (ex_fa ex_index_ab) (ex_shipment ''A'' ''B'' 100) (Fin 50) PInf
   \<and> fa_find_mltihop_path (ex_fa ex_index_ab) (ex_shipment ''A'' ''B'' 100) (Fin 50) PInf 5 10
       = Some (Inr [fa_create_default_path (ex_fa ex_index_ab)
                      (ex_shipment ''A'' ''B'' 100)])"
proof -
  let ?eng = "ex_bi ex_index_ab" and ?feng = "ex_fa ex_index_ab"
    and ?sh = "ex_shipment ''A'' ''B'' 100"
  have nn: "nonneg_index ex_index_ab 100"
    by (simp add: nonneg_index_def ex_simps index_simps)
  have kn: "map_of (eng_postcodes ?eng) (originPC ?sh) \<noteq> None"
    "map_of (eng_postcodes ?eng) (destPC ?sh) \<noteq> None"
    "map_of (fa_postcodes ?feng) (originPC ?sh) \<noteq> None"
    "map_of (fa_postcodes ?feng) (destPC ?sh) \<noteq> None"
    by (simp_all add: ex_simps index_simps)
  have w: "index ?eng = ex_index_ab" "fa_index ?feng = ex_index_ab" "weightKG ?sh = 100"
    "originPC ?sh = ''A''" "destPC ?sh = ''B''"
    by (simp_all add: ex_simps)
  have f: "astar_search ?eng ?sh ''A'' ''B'' True PInf (Fin 24) 5
       = Inr \<lparr> res_parent = [(PZ ''ZA'' ''P'', PC ''A'')],
               res_cost = [(PC ''A'', 0), (PZ ''ZA'' ''P'', 0)],
               res_edge = [(PZ ''ZA'' ''P'', \<lparr> e_cost = 0, e_etd = 0, e_route = Entry \<rparr>)] \<rparr>"
    by (simp add: ex_simps index_simps heap_simps search_simps)
  have b: "astar_search ?eng ?sh ''B'' ''A'' False PInf (Fin 24) 5
       = Inr \<lparr> res_parent = [(PZ ''ZB'' ''P'', PC ''B'')],
               res_cost = [(PC ''B'', 0), (PZ ''ZB'' ''P'', 0)],
               res_edge = [(PZ ''ZB'' ''P'', \<lparr> e_cost = 0, e_etd = 0, e_route = Exit \<rparr>)] \<rparr>"
    by (simp add: ex_simps index_simps heap_simps search_simps)
  have nv: "\<not> spec_viable_path ?feng ?sh (Fin 50) PInf"
    by (rule ex_ab_not_viable) simp
  have k: "(1::int) \<le> 10" by simp
  note t = find_mltihop_path_nonempty[where eng = ?eng and feng = ?feng and sh = ?sh
      and h = 5 and k = 10, unfolded w]
  from t[where mc = PInf and me = "Fin 24", THEN conjunct1, THEN mp,
      OF conjI[OF kn(1)[unfolded w] conjI[OF kn(2)[unfolded w] nn]]]
  obtain fwd bwd ps where r:
      "astar_search ?eng ?sh ''A'' ''B'' True PInf (Fin 24) 5 = Inr fwd"
      "astar_search ?eng ?sh ''B'' ''A'' False PInf (Fin 24) 5 = Inr bwd"
      "find_mltihop_path ?eng ?sh PInf (Fin 24) 5 10 = Some (Inr ps)"
      "(1::int) \<le> 10 \<longrightarrow> ps \<noteq> []
         \<and> ((\<forall>c. map_of (res_cost fwd) (PC c) = None \<or> map_of (res_cost bwd) (PC c) = None)
              \<longrightarrow> ps = [create_default_path ?eng ?sh])"
    by (elim exE conjE)
  from r(1,2) f b have "\<forall>c. map_of (res_cost fwd) (PC c) = None
                            \<or> map_of (res_cost bwd) (PC c) = None"
    by auto
  with r(3) r(4)[THEN mp, OF k] have bi: "find_mltihop_path ?eng ?sh PInf (Fin 24) 5 10
       = Some (Inr [create_default_path ?eng ?sh])"
    by simp
  from t[where mc = "Fin 50" and me = PInf, THEN conjunct2, THEN conjunct1, THEN mp,
      OF conjI[OF kn(3)[unfolded w] conjI[OF kn(4)[unfolded w] nn]]] nv
  have fa: "fa_find_mltihop_path ?feng ?sh (Fin 50) PInf 5 10
       = Some (Inr [fa_create_default_path ?feng ?sh])"
    by auto
  from nn f b bi nv fa show ?thesis by blast
qed

section \<open>The time threshold in the unidirectional engine\<close>

text \<open>
  Claim C4 says that the unidirectional engine skips an edge whose time exceeds
  \<open>maxETD\<close>. Its loop compares only the cumulative cost with \<open>maxCost\<close>. With one
  route of 48 hours and \<open>maxETD = 24\<close> it returns the path over that route, whose transit
  segment has \<open>etd = 48\<close>; the bidirectional engine, which has the test, returns the
  fallback path on the same input. The result of the unidirectional engine does not
  depend on \<open>maxETD\<close> at all.
\<close>

theorem unidirectional_ignores_maxETD:
  "fa_find_mltihop_path (ex_fa ex_index_ab) (ex_shipment ''A'' ''B'' 100) PInf (Fin 24) 5 10
     = Some (Inr [\<lparr> shipmentId = ''s1'',
                    nodes = [PC ''A'', PZ ''ZA'' ''P'', PZ ''ZB'' ''P'', PC ''B''],
                    segments = [\<lparr> seg_fromZone = ''ZA'', seg_toZone = ''ZB'', seg_cost = 65,
                                  seg_etd = 48, seg_type = None, seg_service = None,
                                  seg_providerId = Some ''P'' \<rparr>],
                    totalCost = Fin 65, totalETD = Fin 48, providersInvolved = {''P''},
                    numHops = 1, p_reliabilityScore = 1, totScore = 0, rank = 0 \<rparr>])
   \<and> find_mltihop_path (ex_bi ex_index_ab) (ex_shipment ''A'' ''B'' 100) PInf (Fin 24) 5 10
     = Some (Inr [\<lparr> shipmentId = ''s1'', nodes = [PC ''A'', PC ''B''], segments = [],
                    totalCost = PInf, totalETD = PInf, providersInvolved = {}, numHops = 0,
                    p_reliabilityScore = 1, totScore = 0, rank = 0 \<rparr>])
   \<and> fa_find_mltihop_path feng sh mc me1 h k = fa_find_mltihop_path feng sh mc me2 h k"
proof (intro conjI)
  show "fa_find_mltihop_path feng sh mc me1 h k = fa_find_mltihop_path feng sh mc me2 h k"
    unfolding fa_find_mltihop_path_def ..
qed (simp_all add: ex_simps index_simps heap_simps fa_simps bi_simps)

section \<open>Cheapest routes\<close>

text \<open>
  Claim C5: the list returned by \<open>optimized_for_cost\<close> is sorted non-decreasing in
  \<open>totalCost\<close> and has at most 10 elements, for the optimizer of either engine. In
  engine.py it is the first 10 of the merged candidates sorted by cost. In engine_new.py
  the candidates are the paths found by the search loop, of which there is at most one,
  and the list is that path, or the fallback path when the loop found none. A
  returned list implies that both postcodes are known; and when they are known and no
  route cost is negative at the shipment's weight, a list is returned.
\<close>

theorem optimized_for_cost_sorted:
  "(optimized_for_cost eng sh me = Some (Inr ps) \<longrightarrow>
      sorted (map totalCost ps) \<and> length ps \<le> 10
      \<and> (\<exists>fwd bwd all_paths.
            astar_search eng sh (originPC sh) (destPC sh) True PInf me 5 = Inr fwd
            \<and> astar_search eng sh (destPC sh) (originPC sh) False PInf me 5 = Inr bwd
            \<and> merge_paths eng sh fwd bwd = Some (Inr all_paths)
            \<and> ps = take 10 (sort_key totalCost all_paths)))
   \<and> (fa_optimized_for_cost feng sh me = Some (Inr ps') \<longrightarrow>
      sorted (map totalCost ps') \<and> length ps' \<le> 10
      \<and> (\<exists>x st. fa_loop feng sh PInf (fa_init feng sh) = Some (Inr (x, st))
            \<and> (x = None \<and> ps' = [fa_create_default_path feng sh]
                 \<or> (\<exists>goal p. x = Some goal
                       \<and> reconstruct_path goal (fa_came_from st) (fa_edge_data st) sh
                           = Some (Inr p)
                       \<and> ps' = [p]))))
   \<and> (map_of (eng_postcodes eng) (originPC sh) \<noteq> None
        \<and> map_of (eng_postcodes eng) (destPC sh) \<noteq> None
        \<and> nonneg_index (index eng) (weightKG sh)
      \<longrightarrow> (\<exists>qs. optimized_for_cost eng sh me = Some (Inr qs)))
   \<and> (map_of (fa_postcodes feng) (originPC sh) \<noteq> None
        \<and> map_of (fa_postcodes feng) (destPC sh) \<noteq> None
        \<and> nonneg_index (fa_index feng) (weightKG sh)
      \<longrightarrow> (\<exists>qs. fa_optimized_for_cost feng sh me = Some (Inr qs)))"
proof (intro conjI impI)
  assume a: "optimized_for_cost eng sh me = Some (Inr ps)"
  from find_mltihop_path_sorted[OF a[unfolded optimized_for_cost_def]]
  show "sorted (map totalCost ps)" "length ps \<le> 10" by simp_all
  from find_mltihop_path_candidates[OF a[unfolded optimized_for_cost_def]]
  show "\<exists>fwd bwd all_paths.
            astar_search eng sh (originPC sh) (destPC sh) True PInf me 5 = Inr fwd
            \<and> astar_search eng sh (destPC sh) (originPC sh) False PInf me 5 = Inr bwd
            \<and> merge_paths eng sh fwd bwd = Some (Inr all_paths)
            \<and> ps = take 10 (sort_key totalCost all_paths)"
    by (simp add: py_take_def)
next
  assume a: "fa_optimized_for_cost feng sh me = Some (Inr ps')"
  from fa_find_mltihop_path_single[OF a[unfolded fa_optimized_for_cost_def]]
  obtain p where "ps' = [p]" by (cases ps') auto
  then show "sorted (map totalCost ps')" "length ps' \<le> 10" by simp_all
  from fa_find_mltihop_path_found[OF a[unfolded fa_optimized_for_cost_def]]
  show "\<exists>x st. fa_loop feng sh PInf (fa_init feng sh) = Some (Inr (x, st))
            \<and> (x = None \<and> ps' = [fa_create_default_path feng sh]
                 \<or> (\<exists>goal p. x = Some goal
                       \<and> reconstruct_path goal (fa_came_from st) (fa_edge_data st) sh
                           = Some (Inr p)
                       \<and> ps' = [p]))" .
next
  assume "map_of (eng_postcodes eng) (originPC sh) \<noteq> None
        \<and> map_of (eng_postcodes eng) (destPC sh) \<noteq> None
        \<and> nonneg_index (index eng) (weightKG sh)"
  then have k: "map_of (eng_postcodes eng) (originPC sh) \<noteq> None"
    "map_of (eng_postcodes eng) (destPC sh) \<noteq> None"
    "nonneg_index (index eng) (weightKG sh)" by simp_all
  from find_mltihop_path_returns[OF k, of PInf me 5 10]
  show "\<exists>qs. optimized_for_cost eng sh me = Some (Inr qs)"
    unfolding optimized_for_cost_def by blast
next
  assume "map_of (fa_postcodes feng) (originPC sh) \<noteq> None
        \<and> map_of (fa_postcodes feng) (destPC sh) \<noteq> None
        \<and> nonneg_index (fa_index feng) (weightKG sh)"
  then have k: "map_of (fa_postcodes feng) (originPC sh) \<noteq> None"
    "map_of (fa_postcodes feng) (destPC sh) \<noteq> None"
    "nonneg_index (fa_index feng) (weightKG sh)" by simp_all
  from fa_find_mltihop_path_returns[OF k, of PInf me 5 10]
  obtain x where "(x = None \<longrightarrow> fa_find_mltihop_path feng sh PInf me 5 10
                         = Some (Inr [fa_create_default_path feng sh]))"
      "(x \<noteq> None \<longrightarrow> (\<exists>p. fa_find_mltihop_path feng sh PInf me 5 10 = Some (Inr [p])
                             \<and> finite_path p))"
    by blast
  then show "\<exists>qs. fa_optimized_for_cost feng sh me = Some (Inr qs)"
    unfolding fa_optimized_for_cost_def by (cases x) auto
qed

theorem optimized_for_cost_sorted_witness:
  "nonneg_index ex_index_many 100
   \<and> (\<exists>fwd bwd all_paths ps.
        astar_search (ex_bi ex_index_many) (ex_shipment ''A'' ''B'' 100) ''A'' ''B'' True
            PInf PInf 5 = Inr fwd
        \<and> astar_search (ex_bi ex_index_many) (ex_shipment ''A'' ''B'' 100) ''B'' ''A'' False
            PInf PInf 5 = Inr bwd
        \<and> merge_paths (ex_bi ex_index_many) (ex_shipment ''A'' ''B'' 100) fwd bwd
            = Some (Inr all_paths)
        \<and> map totalCost all_paths
            = [Fin 65, Fin 65, Fin 65, Fin 65, Fin 65, Fin 65, Fin 65, Fin 65, Fin 120, Fin 65,
               Fin 140]
        \<and> optimized_for_cost (ex_bi ex_index_many) (ex_shipment ''A'' ''B'' 100) PInf
            = Some (Inr ps)
        \<and> ps = take 10 (sort_key totalCost all_paths)
        \<and> map totalCost ps
            = [Fin 65, Fin 65, Fin 65, Fin 65, Fin 65, Fin 65, Fin 65, Fin 65, Fin 65, Fin 120]
        \<and> sorted (map totalCost ps) \<and> length ps = 10)
   \<and> (\<exists>goal st. fa_loop (ex_fa ex_index_many) (ex_shipment ''A'' ''B'' 100) PInf
              (fa_init (ex_fa ex_index_many) (ex_shipment ''A'' ''B'' 100))
            = Some (Inr (Some goal, st)))
   \<and> fa_optimized_for_cost (ex_fa ex_index_many) (ex_shipment ''A'' ''B'' 100) PInf
       = Some (Inr [\<lparr> shipmentId = ''s1'',
                      nodes = [PC ''A'', PZ ''ZA'' ''P'', PZ ''ZB'' ''P'', PC ''B''],
                      segments = [\<lparr> seg_fromZone = ''ZA'', seg_toZone = ''ZB'', seg_cost = 65,
                                    seg_etd = 48, seg_type = None, seg_service = None,
                                    seg_providerId = Some ''P'' \<rparr>],
                      totalCost = Fin 65, totalETD = Fin 48, providersInvolved = {''P''},
                      numHops = 1, p_reliabilityScore = 1, totScore = 0, rank = 0 \<rparr>])"
proof -
  let ?eng = "ex_bi ex_index_many" and ?feng = "ex_fa ex_index_many"
    and ?sh = "ex_shipment ''A'' ''B'' 100"
  let ?p = "\<lparr> shipmentId = ''s1'',
                      nodes = [PC ''A'', PZ ''ZA'' ''P'', PZ ''ZB'' ''P'', PC ''B''],
                      segments = [\<lparr> seg_fromZone = ''ZA'', seg_toZone = ''ZB'', seg_cost = 65,
                                    seg_etd = 48, seg_type = None, seg_service = None,
                                    seg_providerId = Some ''P'' \<rparr>],
                      totalCost = Fin 65, totalETD = Fin 48, providersInvolved = {''P''},
                      numHops = 1, p_reliabilityScore = 1, totScore = 0, rank = 0 \<rparr>"
  have nn: "nonneg_index ex_index_many 100"
    by (simp add: nonneg_index_def ex_index_many_def ex_simps index_simps)
  have kn: "map_of (eng_postcodes ?eng) (originPC ?sh) \<noteq> None"
    "map_of (eng_postcodes ?eng) (destPC ?sh) \<noteq> None"
    "map_of (fa_postcodes ?feng) (originPC ?sh) \<noteq> None"
    "map_of (fa_postcodes ?feng) (destPC ?sh) \<noteq> None"
    by (simp_all add: ex_index_many_def ex_simps index_simps)
  have w: "index ?eng = ex_index_many" "fa_index ?feng = ex_index_many" "weightKG ?sh = 100"
    "originPC ?sh = ''A''" "destPC ?sh = ''B''"
    by (simp_all add: ex_simps)
  note t = optimized_for_cost_sorted[where eng = ?eng and feng = ?feng and sh = ?sh
      and me = PInf, unfolded w]
  have cand: "\<exists>fwd bwd all_paths.
       astar_search ?eng ?sh ''A'' ''B'' True PInf PInf 5 = Inr fwd
     \<and> astar_search ?eng ?sh ''B'' ''A'' False PInf PInf 5 = Inr bwd
     \<and> merge_paths ?eng ?sh fwd bwd = Some (Inr all_paths)
     \<and> map totalCost all_paths
          = [Fin 65, Fin 65, Fin 65, Fin 65, Fin 65, Fin 65, Fin 65, Fin 65, Fin 120, Fin 65,
             Fin 140]"
    by (simp add: ex_simps index_simps heap_simps bi_simps)
  from t[where ps = "[]" and ps' = "[]"] kn[unfolded w] nn
  obtain qs qs' where q: "optimized_for_cost ?eng ?sh PInf = Some (Inr qs)"
    "fa_optimized_for_cost ?feng ?sh PInf = Some (Inr qs')"
    by blast
  from t[where ps = qs and ps' = qs'] q
  have s: "sorted (map totalCost qs)" "length qs \<le> 10"
    and c: "\<exists>fwd bwd all_paths.
            astar_search ?eng ?sh ''A'' ''B'' True PInf PInf 5 = Inr fwd
            \<and> astar_search ?eng ?sh ''B'' ''A'' False PInf PInf 5 = Inr bwd
            \<and> merge_paths ?eng ?sh fwd bwd = Some (Inr all_paths)
            \<and> qs = take 10 (sort_key totalCost all_paths)"
    and f: "\<exists>x st. fa_loop ?feng ?sh PInf (fa_init ?feng ?sh) = Some (Inr (x, st))
            \<and> (x = None \<and> qs' = [fa_create_default_path ?feng ?sh]
                 \<or> (\<exists>goal p. x = Some goal
                       \<and> reconstruct_path goal (fa_came_from st) (fa_edge_data st) ?sh
                           = Some (Inr p)
                       \<and> qs' = [p]))"
    by blast+
  from cand c obtain fwd bwd all_paths where m:
      "astar_search ?eng ?sh ''A'' ''B'' True PInf PInf 5 = Inr fwd"
      "astar_search ?eng ?sh ''B'' ''A'' False PInf PInf 5 = Inr bwd"
      "merge_paths ?eng ?sh fwd bwd = Some (Inr all_paths)"
      "map totalCost all_paths
          = [Fin 65, Fin 65, Fin 65, Fin 65, Fin 65, Fin 65, Fin 65, Fin 65, Fin 120, Fin 65,
             Fin 140]"
      "qs = take 10 (sort_key totalCost all_paths)"
    by (elim exE conjE) simp
  have len: "length all_paths = 11"
    using arg_cong[OF m(4), of length] by simp
  have costs: "map totalCost qs
            = [Fin 65, Fin 65, Fin 65, Fin 65, Fin 65, Fin 65, Fin 65, Fin 65, Fin 65, Fin 120]"
  proof -
    have "map totalCost qs = take 10 (sort (map totalCost all_paths))"
      unfolding m(5) by (simp only: take_map[symmetric] map_sort_key)
    then show ?thesis unfolding m(4) by simp
  qed
  have l10: "length qs = 10" unfolding m(5) using len by simp
  have fa: "fa_optimized_for_cost ?feng ?sh PInf = Some (Inr [?p])"
    by (simp add: ex_simps index_simps heap_simps fa_simps opt_simps)
  with q(2) have qs': "qs' = [?p]" by simp
  have nofb: "?p \<noteq> fa_create_default_path ?feng ?sh"
    by (simp add: fa_create_default_path_def)
  from f qs' nofb
  have g: "\<exists>goal st. fa_loop ?feng ?sh PInf (fa_init ?feng ?sh) = Some (Inr (Some goal, st))"
    by auto
  from m(1,2,3,4) q(1) m(5) costs s(1) l10
  have main: "astar_search ?eng ?sh ''A'' ''B'' True PInf PInf 5 = Inr fwd
        \<and> astar_search ?eng ?sh ''B'' ''A'' False PInf PInf 5 = Inr bwd
        \<and> merge_paths ?eng ?sh fwd bwd = Some (Inr all_paths)
        \<and> map totalCost all_paths
            = [Fin 65, Fin 65, Fin 65, Fin 65, Fin 65, Fin 65, Fin 65, Fin 65, Fin 120, Fin 65,
               Fin 140]
        \<and> optimized_for_cost ?eng ?sh PInf = Some (Inr qs)
        \<and> qs = take 10 (sort_key totalCost all_paths)
        \<and> map totalCost qs
            = [Fin 65, Fin 65, Fin 65, Fin 65, Fin 65, Fin 65, Fin 65, Fin 65, Fin 65, Fin 120]
        \<and> sorted (map totalCost qs) \<and> length qs = 10"
    by (intro conjI)
  have bi: "\<exists>fwd bwd all_paths ps.
        astar_search ?eng ?sh ''A'' ''B'' True PInf PInf 5 = Inr fwd
        \<and> astar_search ?eng ?sh ''B'' ''A'' False PInf PInf 5 = Inr bwd
        \<and> merge_paths ?eng ?sh fwd bwd = Some (Inr all_paths)
        \<and> map totalCost all_paths
            = [Fin 65, Fin 65, Fin 65, Fin 65, Fin 65, Fin 65, Fin 65, Fin 65, Fin 120, Fin 65,
               Fin 140]
        \<and> optimized_for_cost ?eng ?sh PInf = Some (Inr ps)
        \<and> ps = take 10 (sort_key totalCost all_paths)
        \<and> map totalCost ps
            = [Fin 65, Fin 65, Fin 65, Fin 65, Fin 65, Fin 65, Fin 65, Fin 65, Fin 65, Fin 120]
        \<and> sorted (map totalCost ps) \<and> length ps = 10"
    by (rule exI[of _ fwd], rule exI[of _ bwd], rule exI[of _ all_paths], rule exI[of _ qs])
       (rule main)
  show ?thesis by (rule conjI[OF nn conjI[OF bi conjI[OF g fa]]])
qed

section \<open>Multi-criteria ranking\<close>

text \<open>
  Claim C6 says that \<open>optimize_multi_criteria\<close> scores the candidates and ranks them
  from 1. The optimizer of engine.py does so (lemmas \<open>optimize_multi_criteria_ranked\<close>
  and \<open>optimize_multi_criteria_returns\<close>).
  The optimizer of engine_new.py returns the search result as it is: the single path
  found keeps score 0 and rank 0.
\<close>

theorem unidirectional_multi_criteria_unranked:
  "fa_optimize_multi_criteria (ex_fa ex_index_ab) (ex_shipment ''A'' ''B'' 100)
     = Some (Inr [\<lparr> shipmentId = ''s1'',
                    nodes = [PC ''A'', PZ ''ZA'' ''P'', PZ ''ZB'' ''P'', PC ''B''],
                    segments = [\<lparr> seg_fromZone = ''ZA'', seg_toZone = ''ZB'', seg_cost = 65,
                                  seg_etd = 48, seg_type = None, seg_service = None,
                                  seg_providerId = Some ''P'' \<rparr>],
                    totalCost = Fin 65, totalETD = Fin 48, providersInvolved = {''P''},
                    numHops = 1, p_reliabilityScore = 1, totScore = 0, rank = 0 \<rparr>])"
  by (simp add: ex_simps index_simps heap_simps fa_simps opt_simps)

section \<open>Zero weight\<close>

text \<open>
  Claim C7: for a shipment of weight 0 the cost of every route edge is the route's
  \<open>minCharge\<close>, with no levy or other adjustment. This holds of the cost function, of
  every route edge that either engine offers for expansion, and of every route edge
  recorded by a search of the bidirectional engine.
\<close>

theorem zero_weight_edge_cost:
  assumes "weightKG sh = 0"
  shows "calculateCost r (weightKG sh) = minCharge r
    \<and> (\<forall>nb \<in> set (get_neighbors eng cur sh h fwd).
          \<forall>route. snd (snd (snd nb)) = ZoneRoute route \<longrightarrow> fst (snd nb) = minCharge route)
    \<and> (\<forall>nb \<in> set (get_forward_neighbors feng cur sh).
          \<forall>route. snd (snd (snd nb)) = TransitI route \<longrightarrow> fst (snd nb) = minCharge route)
    \<and> (astar_search eng sh start goal fwd mc me h = Inr res \<longrightarrow>
          (\<forall>(n, e) \<in> set (res_edge res).
             \<forall>route. e_route e = ZoneRoute route \<longrightarrow> e_cost e = minCharge route))"
proof -
  have z: "\<And>route. calculateCost route (weightKG sh) = minCharge route"
    using assms by (simp add: calculateCost_def)
  have a: "\<forall>nb \<in> set (get_neighbors eng cur sh h fwd).
          \<forall>route. snd (snd (snd nb)) = ZoneRoute route \<longrightarrow> fst (snd nb) = minCharge route"
  proof (intro ballI allI impI)
    fix nb route
    assume "nb \<in> set (get_neighbors eng cur sh h fwd)" "snd (snd (snd nb)) = ZoneRoute route"
    then have "(fst nb, fst (snd nb), fst (snd (snd nb)), ZoneRoute route)
                 \<in> set (get_neighbors eng cur sh h fwd)"
      by (metis prod.collapse)
    from get_neighbors_cost[OF this] show "fst (snd nb) = minCharge route" by (simp add: z)
  qed
  have b: "\<forall>nb \<in> set (get_forward_neighbors feng cur sh).
          \<forall>route. snd (snd (snd nb)) = TransitI route \<longrightarrow> fst (snd nb) = minCharge route"
  proof (intro ballI allI impI)
    fix nb route
    assume "nb \<in> set (get_forward_neighbors feng cur sh)" "snd (snd (snd nb)) = TransitI route"
    then have "(fst nb, fst (snd nb), fst (snd (snd nb)), TransitI route)
                 \<in> set (get_forward_neighbors feng cur sh)"
      by (metis prod.collapse)
    from get_forward_neighbors_cost[OF this] show "fst (snd nb) = minCharge route" by (simp add: z)
  qed
  have c: "astar_search eng sh start goal fwd mc me h = Inr res \<longrightarrow>
          (\<forall>(n, e) \<in> set (res_edge res).
             \<forall>route. e_route e = ZoneRoute route \<longrightarrow> e_cost e = minCharge route)"
    using astar_search_edges_priced[of eng sh start goal fwd mc me h res] by (simp add: z)
  from z a b c show ?thesis by blast
qed

theorem zero_weight_edge_cost_witness:
  "weightKG (ex_shipment ''A'' ''B'' 0) = 0
   \<and> calculateCost ex_levy_route 0 = 2
   \<and> get_neighbors (ex_bi ex_index_ab) (PZ ''ZA'' ''P'') (ex_shipment ''A'' ''B'' 0) 5 True
       = [(PZ ''ZB'' ''P'', 65, 48, ZoneRoute (ex_route ''ZA'' ''ZB'' 65 48)), (PC ''A'', 0, 0, Exit)]
   \<and> minCharge (ex_route ''ZA'' ''ZB'' 65 48) = 65"
  using zero_weight_edge_cost[where sh = "ex_shipment ''A'' ''B'' 0" and r = ex_levy_route
      and eng = "ex_bi ex_index_ab" and cur = "PZ ''ZA'' ''P''" and h = 5 and fwd = True]
  by (simp add: ex_simps index_simps ex_levy_route_def)

section \<open>The hop limit\<close>

text \<open>
  Claim C8: \<open>maxHops\<close> is a no-op. For every engine, shipment, thresholds and \<open>topK\<close>,
  and any two values of \<open>maxHops\<close>, \<open>find_mltihop_path\<close> gives the same outcome (the
  same list, the same error, or no return in both cases), in the bidirectional and in the
  unidirectional engine.
\<close>

theorem maxHops_is_ignored:
  "find_mltihop_path eng sh mc me h1 k = find_mltihop_path eng sh mc me h2 k
   \<and> fa_find_mltihop_path feng sh mc me h1 k = fa_find_mltihop_path feng sh mc me h2 k"
proof
  show "find_mltihop_path eng sh mc me h1 k = find_mltihop_path eng sh mc me h2 k"
    unfolding find_mltihop_path_def astar_search_maxHops[of _ _ _ _ _ _ _ h1 h2] ..
  show "fa_find_mltihop_path feng sh mc me h1 k = fa_find_mltihop_path feng sh mc me h2 k"
    unfolding fa_find_mltihop_path_def ..
qed

section \<open>Duplicate keys in the graph index\<close>

text \<open>
  Claim C9, as stated: of two input entities with the same key the later one replaces
  the earlier one in every lookup structure. The adjacency tables append: of two routes
  with the same provider, origin zone and destination zone both are returned. The
  postcode-to-zones table appends too: of two zones with the same provider and zone code
  the later one replaces the postcode list of the earlier one in the zone-to-postcodes
  table, while a postcode of the earlier zone still maps to the zone.
\<close>

theorem graph_index_duplicate_route_counterexample:
  "get_OutgoingRoutes
      (GraphIndex_init [] [] [(''P'', [ex_route ''ZA'' ''ZB'' 10 1, ex_route ''ZA'' ''ZB'' 20 2])])
      ''P'' ''ZA''
     = [ex_route ''ZA'' ''ZB'' 10 1, ex_route ''ZA'' ''ZB'' 20 2]
   \<and> get_PostcodesForZone
        (GraphIndex_init [] [(''P'', [ex_zone ''ZA'' [''A''], ex_zone ''ZA'' [''B'']])] [])
        ''P'' ''ZA'' = [''B'']
   \<and> get_ZonesForPostcode
        (GraphIndex_init [] [(''P'', [ex_zone ''ZA'' [''A''], ex_zone ''ZA'' [''B'']])] [])
        ''A'' = [(''P'', ''ZA'')]"
  by (simp add: get_OutgoingRoutes_def get_PostcodesForZone_def get_ZonesForPostcode_def
      GraphIndex_init_def buildZoneAdjacency_def buildZoneToPCMap_def buildPCtoZoneMap_def
      dict_append_def dict_get_def ex_route_def ex_zone_def)

text \<open>
  Claim C9, amended: building the index is a total function, so it never fails. A
  postcode replaces every earlier postcode with the same code in the postcode table, and
  a zone replaces the postcode list of every earlier zone with the same provider key and
  zone code in the zone-to-postcodes table. The other three lookup structures keep every
  entry. The outgoing and incoming adjacency lists hold every input route with the
  matching key, duplicates included, in input order. The zones of a postcode are one
  pair of provider key and zone code for every occurrence of the postcode in the
  postcode list of any input zone, in input order, also for a zone whose postcode list a
  later zone has replaced.
\<close>

theorem graph_index_duplicate_keys:
  "(code p \<notin> code ` set later \<longrightarrow>
      map_of (gi_postcodes (GraphIndex_init (earlier @ p # later) pzs zr)) (code p) = Some p)
   \<and> (prov \<notin> fst ` set post \<and> zoneCode z \<notin> zoneCode ` set after \<longrightarrow>
        get_PostcodesForZone
          (GraphIndex_init pcs (pre @ (prov, before @ z # after) # post) zr) prov (zoneCode z)
          = postcodes z)
   \<and> get_OutgoingRoutes (GraphIndex_init pcs pzs zr) pr zc
        = filter (\<lambda>r. providerId r = pr \<and> fromZone r = zc) (concat (map snd zr))
   \<and> get_IncomingRoutes (GraphIndex_init pcs pzs zr) pr zc
        = filter (\<lambda>r. providerId r = pr \<and> toZone r = zc) (concat (map snd zr))
   \<and> get_ZonesForPostcode (GraphIndex_init pcs pzs zr) pc
        = concat (map (\<lambda>(prov, zones).
                    concat (map (\<lambda>z. map (\<lambda>_. (prov, zoneCode z))
                                       (filter (\<lambda>c. c = pc) (postcodes z))) zones)) pzs)"
  by (intro conjI impI)
     (simp_all add: postcode_last_write zone_last_write outgoing_all incoming_all
        zones_for_postcode_all)

theorem graph_index_duplicate_keys_witness:
  "map_of (gi_postcodes (GraphIndex_init [ex_pc ''A'' ''old'', ex_pc ''A'' ''new''] [] []))
      ''A'' = Some (ex_pc ''A'' ''new'')
   \<and> get_PostcodesForZone
        (GraphIndex_init [] [(''P'', [ex_zone ''ZA'' [''A''], ex_zone ''ZA'' [''B'']])] [])
        ''P'' ''ZA'' = [''B'']
   \<and> get_ZonesForPostcode
        (GraphIndex_init [] [(''P'', [ex_zone ''ZA'' [''A''], ex_zone ''ZA'' [''B'']])] [])
        ''A'' = [(''P'', ''ZA'')]
   \<and> get_IncomingRoutes
        (GraphIndex_init [] [] [(''P'', [ex_route ''ZA'' ''ZB'' 10 1, ex_route ''ZA'' ''ZB'' 20 2])])
        ''P'' ''ZB''
       = [ex_route ''ZA'' ''ZB'' 10 1, ex_route ''ZA'' ''ZB'' 20 2]"
proof -
  note t = graph_index_duplicate_keys[where p = "ex_pc ''A'' ''new''" and later = "[]"
      and earlier = "[ex_pc ''A'' ''old'']"
      and prov = "''P''" and post = "[]" and z = "ex_zone ''ZA'' [''B'']" and after = "[]"
      and pre = "[]" and before = "[ex_zone ''ZA'' [''A'']]"
      and pr = "''P''" and zc = "''ZB''" and pc = "''A''"]
  from t[where pzs = "[]" and pcs = "[]" and zr = "[]"]
  have a: "map_of (gi_postcodes (GraphIndex_init [ex_pc ''A'' ''old'', ex_pc ''A'' ''new''] [] []))
      ''A'' = Some (ex_pc ''A'' ''new'')"
    by (simp add: ex_pc_def)
  from t[where pzs = "[]" and pcs = "[]" and zr = "[]"]
  have b: "get_PostcodesForZone
        (GraphIndex_init [] [(''P'', [ex_zone ''ZA'' [''A''], ex_zone ''ZA'' [''B'']])] [])
        ''P'' ''ZA'' = [''B'']"
    by (simp add: ex_zone_def)
  from t[where pzs = "[(''P'', [ex_zone ''ZA'' [''A''], ex_zone ''ZA'' [''B'']])]"
      and pcs = "[]" and zr = "[]"]
  have c: "get_ZonesForPostcode
        (GraphIndex_init [] [(''P'', [ex_zone ''ZA'' [''A''], ex_zone ''ZA'' [''B'']])] [])
        ''A'' = [(''P'', ''ZA'')]"
    by (simp add: ex_zone_def)
  from t[where pzs = "[]" and pcs = "[]"
      and zr = "[(''P'', [ex_route ''ZA'' ''ZB'' 10 1, ex_route ''ZA'' ''ZB'' 20 2])]"]
  have d: "get_IncomingRoutes
        (GraphIndex_init [] [] [(''P'', [ex_route ''ZA'' ''ZB'' 10 1, ex_route ''ZA'' ''ZB'' 20 2])])
        ''P'' ''ZB''
       = [ex_route ''ZA'' ''ZB'' 10 1, ex_route ''ZA'' ''ZB'' 20 2]"
    by (simp add: ex_route_def)
  from a b c d show ?thesis by blast
qed

section \<open>The cost threshold in the bidirectional engine\<close>

text \<open>
  Claim C10, as stated: every cost recorded by a leg is at most \<open>maxCost\<close>. The start
  vertex is recorded with cost 0 before any test, so for the negative threshold \<open>-1\<close>
  the recorded cost 0 of the start exceeds it.
\<close>

theorem bidirectional_leg_bound_counterexample:
  "astar_search (ex_bi ex_index_ab) (ex_shipment ''A'' ''B'' 100) ''A'' ''B'' True
      (Fin (- 1)) PInf 5
     = Inr \<lparr> res_parent = [], res_cost = [(PC ''A'', 0)], res_edge = [] \<rparr>"
  by (simp add: ex_simps index_simps heap_simps bi_simps)


text \<open>
  Claim C10, amended: every cost recorded by the forward or the backward leg is at most
  \<open>maxCost\<close>, except that the start vertex of the leg may keep its initial cost 0 (which
  is within every threshold that is not negative). The merged total is not tested again:
  on the line \<open>A\<close>, \<open>M\<close>, \<open>B\<close> with two legs of cost 60 and \<open>maxCost = 100\<close> the engine
  returns a path with segments and total cost 120, above \<open>maxCost\<close> and at most twice it.
\<close>

theorem bidirectional_leg_bound:
  "(astar_search eng sh start goal fwd mc me h = Inr res \<longrightarrow>
      (\<forall>(n, c) \<in> set (res_cost res). Fin c \<le> mc \<or> (n = PC start \<and> c = 0)))
   \<and> (\<exists>p. find_mltihop_path (ex_bi ex_index_amb) (ex_shipment ''A'' ''B'' 100)
              (Fin 100) PInf 5 10 = Some (Inr [p])
          \<and> segments p \<noteq> [] \<and> totalCost p = Fin 120 \<and> Fin 100 < totalCost p
          \<and> totalCost p \<le> Fin (2 * 100))"
proof
  show "astar_search eng sh start goal fwd mc me h = Inr res \<longrightarrow>
      (\<forall>(n, c) \<in> set (res_cost res). Fin c \<le> mc \<or> (n = PC start \<and> c = 0))"
    using astar_search_g_bounded by blast
  show "\<exists>p. find_mltihop_path (ex_bi ex_index_amb) (ex_shipment ''A'' ''B'' 100)
              (Fin 100) PInf 5 10 = Some (Inr [p])
          \<and> segments p \<noteq> [] \<and> totalCost p = Fin 120 \<and> Fin 100 < totalCost p
          \<and> totalCost p \<le> Fin (2 * 100)"
    by (simp add: ex_simps index_simps heap_simps bi_simps)
qed

theorem bidirectional_leg_bound_witness:
  "astar_search (ex_bi ex_index_amb) (ex_shipment ''A'' ''B'' 100) ''A'' ''B'' True
       (Fin 100) PInf 5
     = Inr \<lparr> res_parent = [(PZ ''ZA'' ''P'', PC ''A''), (PZ ''ZM'' ''P'', PZ ''ZA'' ''P''),
                           (PC ''M'', PZ ''ZM'' ''P'')],
             res_cost = [(PC ''A'', 0), (PZ ''ZA'' ''P'', 0), (PZ ''ZM'' ''P'', 60), (PC ''M'', 60)],
             res_edge = [(PZ ''ZA'' ''P'', \<lparr>e_cost = 0, e_etd = 0, e_route = Entry\<rparr>),
                         (PZ ''ZM'' ''P'', \<lparr>e_cost = 60, e_etd = 10,
                             e_route = ZoneRoute (ex_route ''ZA'' ''ZM'' 60 10)\<rparr>),
                         (PC ''M'', \<lparr>e_cost = 0, e_etd = 0, e_route = Exit\<rparr>)] \<rparr>
   \<and> Fin 60 \<le> Fin 100"
proof -
  have e: "astar_search (ex_bi ex_index_amb) (ex_shipment ''A'' ''B'' 100) ''A'' ''B'' True
       (Fin 100) PInf 5
     = Inr \<lparr> res_parent = [(PZ ''ZA'' ''P'', PC ''A''), (PZ ''ZM'' ''P'', PZ ''ZA'' ''P''),
                           (PC ''M'', PZ ''ZM'' ''P'')],
             res_cost = [(PC ''A'', 0), (PZ ''ZA'' ''P'', 0), (PZ ''ZM'' ''P'', 60), (PC ''M'', 60)],
             res_edge = [(PZ ''ZA'' ''P'', \<lparr>e_cost = 0, e_etd = 0, e_route = Entry\<rparr>),
                         (PZ ''ZM'' ''P'', \<lparr>e_cost = 60, e_etd = 10,
                             e_route = ZoneRoute (ex_route ''ZA'' ''ZM'' 60 10)\<rparr>),
                         (PC ''M'', \<lparr>e_cost = 0, e_etd = 0, e_route = Exit\<rparr>)] \<rparr>"
    by (simp add: ex_simps index_simps heap_simps bi_simps)
  from bidirectional_leg_bound[where eng = "ex_bi ex_index_amb"
      and sh = "ex_shipment ''A'' ''B'' 100" and start = "''A''" and goal = "''B''"
      and fwd = True and mc = "Fin 100" and me = PInf and h = 5] e
  show ?thesis by simp
qed

end
